theory Spec2Isabelle
  imports Main "HOL-Library.Word" "HOL-Library.List_Lexorder" "HOL-Library.Multiset"
begin

unbundle bit_operations_syntax

section \<open>The onion dictionary (src/onion/dict.c): data model\<close>

text \<open>
  A \<open>const char *\<close> is modelled as the address it holds together with the bytes stored
  there. An address stands for one allocation: the allocator is taken to return an
  address it has not returned before, which loses nothing, since C gives no meaning to a
  pointer once its allocation is freed, also where the same memory is handed out again.
  The dictionary never writes through these pointers, and a string the caller passes
  without asking for a copy is taken to stay as it is until the dictionary frees it; so
  the bytes behind an address do not change while it is allocated. What changes is
  whether the address has been passed to \<open>free\<close>, and that is recorded in the list of
  freed addresses the operations return. The operations of the next section compute on
  the bytes without consulting that list: they describe the program as long as it reads
  no string it has freed. The checked operations further down consult the list and stop
  where the program would read, copy or free a string at a freed address; what is said
  about dictionaries reached through removals is said of them.
  C reads a string up to its first NUL byte; the model does the same, a list without
  a NUL ending where the list ends.
\<close>

type_synonym cptr = nat

record cstring =
  addr :: cptr
  bytes :: string

text \<open>\<open>struct onion_dict_node_data_t\<close>: key, value and the \<open>char flags\<close>.\<close>

record onion_dict_node_data =
  key :: cstring
  val :: cstring
  flags :: "8 word"

text \<open>
  \<open>struct onion_dict_node_t\<close>, fields in the order of the struct: data, level, left,
  right. \<open>Null\<close> is the null pointer. Nodes are never shared between two parents, so a
  node pointer is the subtree it points at. \<open>level\<close> is a C \<open>int\<close>; it only ever grows
  by one in \<open>split\<close>, and in a tree satisfying the level invariant it is bounded by the
  height, so it is modelled as an unbounded integer.
\<close>

datatype onion_dict_node =
  Null
| Node (data: onion_dict_node_data) (level: int) (left: onion_dict_node) (right: onion_dict_node)

text \<open>\<open>onion_dict\<close> (declared in types_internal.h): the handle holding the root.\<close>

record onion_dict =
  root :: onion_dict_node

text \<open>
  The flag constants \<open>OD_FREE_KEY\<close>, \<open>OD_FREE_VALUE\<close>, \<open>OD_DUP_KEY\<close>, \<open>OD_DUP_VALUE\<close>
  are declared in dict.h; dict.c only uses them. They are taken as a parameter, and
  every general result below holds for all values of them.
\<close>

record od_flags =
  OD_FREE_KEY :: "32 word"
  OD_FREE_VALUE :: "32 word"
  OD_DUP_KEY :: "32 word"
  OD_DUP_VALUE :: "32 word"

section \<open>libc: strcmp and strdup\<close>

definition byte :: "char \<Rightarrow> int" where
  "byte c = int (of_char c)"

definition NUL :: char where
  "NUL = CHR 0x00"

text \<open>
  \<open>strcmp\<close> compares bytes as \<open>unsigned char\<close> up to the first difference or the
  terminating NUL. The C standard fixes only the sign of the result; the model returns
  the difference of the first differing bytes, as the common C libraries do, so that
  the narrowing to \<open>signed char\<close> in \<open>onion_dict_find_node\<close> has something to narrow.
\<close>

fun strcmp :: "string \<Rightarrow> string \<Rightarrow> int" where
  "strcmp [] [] = 0"
| "strcmp [] (b # bs) = 0 - byte b"
| "strcmp (a # as) [] = byte a"
| "strcmp (a # as) (b # bs) =
     (if a = b then (if a = NUL then 0 else strcmp as bs) else byte a - byte b)"

text \<open>\<open>strdup\<close>: a copy of the string at the address the allocator returns.\<close>

definition strdup :: "cptr \<Rightarrow> cstring \<Rightarrow> cstring" where
  "strdup p s = \<lparr>addr = p, bytes = takeWhile (\<lambda>c. c \<noteq> NUL) (bytes s)\<rparr>"

section \<open>The operations\<close>

definition onion_dict_new :: onion_dict where
  "onion_dict_new = \<lparr>root = Null\<rparr>"

text \<open>
  \<open>onion_dict_find_node\<close>. The result of \<open>strcmp\<close> is stored in a \<open>signed char\<close>, hence
  narrowed to 8 bits and read as two's complement (what gcc and clang define for the
  conversion). The only caller passes a null
  \<open>parent\<close>, so nothing is written through it and the model leaves it out. The final
  \<open>return NULL\<close> is kept as the last branch.
\<close>

definition to_schar :: "int \<Rightarrow> int" where
  "to_schar i = sint (word_of_int i :: 8 word)"

fun onion_dict_find_node :: "onion_dict_node \<Rightarrow> cstring \<Rightarrow> onion_dict_node" where
  "onion_dict_find_node Null k = Null"
| "onion_dict_find_node (Node d lv l r) k =
     (let cmp = to_schar (strcmp (bytes k) (bytes (key d))) in
      if cmp = 0 then Node d lv l r
      else if cmp < 0 then onion_dict_find_node l k
      else if cmp > 0 then onion_dict_find_node r k
      else Null)"

text \<open>
  \<open>onion_dict_set_node_data\<close> and \<open>onion_dict_node_new\<close>. \<open>ka\<close> and \<open>va\<close> are the
  addresses \<open>strdup\<close> returns if it is called. The \<open>int flags\<close> are stored in a \<open>char\<close>.
\<close>

definition onion_dict_set_node_data ::
  "od_flags \<Rightarrow> cstring \<Rightarrow> cstring \<Rightarrow> 32 word \<Rightarrow> cptr \<Rightarrow> cptr \<Rightarrow> onion_dict_node_data" where
  "onion_dict_set_node_data od k v fl ka va =
     \<lparr>key = (if fl AND OD_DUP_KEY od = OD_DUP_KEY od then strdup ka k else k),
      val = (if fl AND OD_DUP_VALUE od = OD_DUP_VALUE od then strdup va v else v),
      flags = ucast fl\<rparr>"

definition onion_dict_node_new ::
  "od_flags \<Rightarrow> cstring \<Rightarrow> cstring \<Rightarrow> 32 word \<Rightarrow> cptr \<Rightarrow> cptr \<Rightarrow> onion_dict_node" where
  "onion_dict_node_new od k v fl ka va =
     Node (onion_dict_set_node_data od k v fl ka va) 1 Null Null"

fun skew :: "onion_dict_node \<Rightarrow> onion_dict_node" where
  "skew (Node d lv (Node ld llv ll lr) r) =
     (if llv \<noteq> lv then Node d lv (Node ld llv ll lr) r
      else Node ld llv ll (Node d lv lr r))"
| "skew node = node"

fun split :: "onion_dict_node \<Rightarrow> onion_dict_node" where
  "split (Node d lv l (Node rd rlv rl (Node rrd rrlv rrl rrr))) =
     (if lv \<noteq> rrlv then Node d lv l (Node rd rlv rl (Node rrd rrlv rrl rrr))
      else Node rd (rlv + 1) (Node d lv l rl) (Node rrd rrlv rrl rrr))"
| "split node = node"

text \<open>The level of a child as \<open>decrease_level\<close> reads it: 0 for a null pointer.\<close>

fun lvl :: "onion_dict_node \<Rightarrow> int" where
  "lvl Null = 0"
| "lvl (Node d lv l r) = lv"

text \<open>\<open>node->right->level = should_be\<close>, done when the right child exists and is higher.\<close>

fun clamp_level :: "int \<Rightarrow> onion_dict_node \<Rightarrow> onion_dict_node" where
  "clamp_level should_be Null = Null"
| "clamp_level should_be (Node d lv l r) =
     (if should_be < lv then Node d should_be l r else Node d lv l r)"

text \<open>\<open>decrease_level\<close> dereferences its argument, and is only called on a node.\<close>

fun decrease_level :: "onion_dict_node \<Rightarrow> onion_dict_node" where
  "decrease_level (Node d lv l r) =
     (let level_left = lvl l;
          level_right = lvl r;
          should_be = (if level_left < level_right then level_left else level_right) + 1
      in if should_be < lv then Node d should_be l (clamp_level should_be r)
         else Node d lv l r)"

fun onion_dict_node_add :: "onion_dict_node \<Rightarrow> onion_dict_node \<Rightarrow> onion_dict_node" where
  "onion_dict_node_add Null nnode = nnode"
| "onion_dict_node_add (Node d lv l r) nnode =
     (let cmp = strcmp (bytes (key (data nnode))) (bytes (key d));
          node = (if cmp < 0 then Node d lv (onion_dict_node_add l nnode) r
                  else Node d lv l (onion_dict_node_add r nnode))
      in split (skew node))"

definition onion_dict_add ::
  "od_flags \<Rightarrow> onion_dict \<Rightarrow> cstring \<Rightarrow> cstring \<Rightarrow> 32 word \<Rightarrow> cptr \<Rightarrow> cptr \<Rightarrow> onion_dict" where
  "onion_dict_add od dict k v fl ka va =
     dict\<lparr>root := onion_dict_node_add (root dict) (onion_dict_node_new od k v fl ka va)\<rparr>"

text \<open>
  \<open>onion_dict_node_data_free\<close>: the addresses passed to \<open>free\<close>, in order. The \<open>char\<close>
  flags are promoted to \<open>int\<close> for the test, as a signed \<open>char\<close>.
\<close>

definition onion_dict_node_data_free :: "od_flags \<Rightarrow> onion_dict_node_data \<Rightarrow> cptr list" where
  "onion_dict_node_data_free od d =
     (if (scast (flags d) :: 32 word) AND OD_FREE_KEY od \<noteq> 0 then [addr (key d)] else []) @
     (if (scast (flags d) :: 32 word) AND OD_FREE_VALUE od \<noteq> 0 then [addr (val d)] else [])"

text \<open>
  The two loops of \<open>onion_dict_node_remove\<close> that walk to the donor node \<open>t\<close>:
  \<open>while (t->left) t=t->left\<close> and \<open>while (t->right) t=t->right\<close>. Each comes as the
  data read from \<open>t\<close> and as the tree after \<open>t->data.flags=0\<close>.
\<close>

fun leftmost_data :: "onion_dict_node \<Rightarrow> onion_dict_node_data" where
  "leftmost_data (Node d lv Null r) = d"
| "leftmost_data (Node d lv (Node ld llv ll lr) r) = leftmost_data (Node ld llv ll lr)"

fun leftmost_clear :: "onion_dict_node \<Rightarrow> onion_dict_node" where
  "leftmost_clear Null = Null"
| "leftmost_clear (Node d lv Null r) = Node (d\<lparr>flags := 0\<rparr>) lv Null r"
| "leftmost_clear (Node d lv (Node ld llv ll lr) r) =
     Node d lv (leftmost_clear (Node ld llv ll lr)) r"

fun rightmost_data :: "onion_dict_node \<Rightarrow> onion_dict_node_data" where
  "rightmost_data (Node d lv l Null) = d"
| "rightmost_data (Node d lv l (Node rd rlv rl rr)) = rightmost_data (Node rd rlv rl rr)"

fun rightmost_clear :: "onion_dict_node \<Rightarrow> onion_dict_node" where
  "rightmost_clear Null = Null"
| "rightmost_clear (Node d lv l Null) = Node (d\<lparr>flags := 0\<rparr>) lv l Null"
| "rightmost_clear (Node d lv l (Node rd rlv rl rr)) =
     Node d lv l (rightmost_clear (Node rd rlv rl rr))"

text \<open>
  The tail of \<open>onion_dict_node_remove\<close>, from \<open>decrease_level(node)\<close> to \<open>return node\<close>,
  statement by statement.
\<close>

fun skew_right :: "onion_dict_node \<Rightarrow> onion_dict_node" where
  "skew_right (Node d lv l r) =
     (if r \<noteq> Null then Node d lv l (skew r) else Node d lv l r)"
| "skew_right Null = Null"

fun skew_right_right :: "onion_dict_node \<Rightarrow> onion_dict_node" where
  "skew_right_right (Node d lv l (Node rd rlv rl rr)) =
     (if rr \<noteq> Null then Node d lv l (Node rd rlv rl (skew rr))
      else Node d lv l (Node rd rlv rl rr))"
| "skew_right_right node = node"

fun split_right :: "onion_dict_node \<Rightarrow> onion_dict_node" where
  "split_right (Node d lv l r) =
     (if r \<noteq> Null then Node d lv l (split r) else Node d lv l r)"
| "split_right Null = Null"

definition rebalance :: "onion_dict_node \<Rightarrow> onion_dict_node" where
  "rebalance node0 =
     (let node1 = decrease_level node0;
          node2 = skew node1;
          node3 = skew_right_right (skew_right node2);
          node4 = split node3
      in split_right node4)"

text \<open>
  \<open>onion_dict_node_remove\<close>: the new subtree root and the addresses freed on the way.
\<close>

function onion_dict_node_remove ::
  "od_flags \<Rightarrow> onion_dict_node \<Rightarrow> cstring \<Rightarrow> onion_dict_node \<times> cptr list" where
  "onion_dict_node_remove od Null k = (Null, [])"
| "onion_dict_node_remove od (Node d lv l r) k =
     (let cmp = strcmp (bytes k) (bytes (key d)) in
      if cmp < 0 then
        (let (l', fs) = onion_dict_node_remove od l k
         in (rebalance (Node d lv l' r), fs))
      else if cmp > 0 then
        (let (r', fs) = onion_dict_node_remove od r k
         in (rebalance (Node d lv l r'), fs))
      else
        (let fs0 = onion_dict_node_data_free od d in
         if l = Null \<and> r = Null then (Null, fs0)
         else if l = Null then
           (let td = leftmost_data r;
                (r', fs) = onion_dict_node_remove od (leftmost_clear r) (key td)
            in (rebalance (Node td lv l r'), fs0 @ fs))
         else
           (let td = rightmost_data l;
                (l', fs) = onion_dict_node_remove od (rightmost_clear l) (key td)
            in (rebalance (Node td lv l' r), fs0 @ fs))))"
  by pat_completeness auto
termination
proof -
  have l: "size (leftmost_clear t) = size t" for t
    by (induction t rule: leftmost_clear.induct) simp_all
  have r: "size (rightmost_clear t) = size t" for t
    by (induction t rule: rightmost_clear.induct) simp_all
  show ?thesis
    by (relation "measure (\<lambda>(od, t, k). size t)") (auto simp: l r)
qed

text \<open>\<open>onion_dict_remove\<close>: the dictionary, the \<open>int\<close> it returns and the frees.\<close>

definition onion_dict_remove ::
  "od_flags \<Rightarrow> onion_dict \<Rightarrow> cstring \<Rightarrow> onion_dict \<times> int \<times> cptr list" where
  "onion_dict_remove od dict k =
     (let (r, fs) = onion_dict_node_remove od (root dict) k
      in (dict\<lparr>root := r\<rparr>, 1, fs))"

text \<open>\<open>onion_dict_node_free\<close> and \<open>onion_dict_free\<close>: the addresses freed, in order.\<close>

fun onion_dict_node_free :: "od_flags \<Rightarrow> onion_dict_node \<Rightarrow> cptr list" where
  "onion_dict_node_free od (Node d lv l r) =
     (if l \<noteq> Null then onion_dict_node_free od l else []) @
     (if r \<noteq> Null then onion_dict_node_free od r else []) @
     onion_dict_node_data_free od d"

definition onion_dict_free :: "od_flags \<Rightarrow> onion_dict \<Rightarrow> cptr list" where
  "onion_dict_free od dict =
     (if root dict \<noteq> Null then onion_dict_node_free od (root dict) else [])"

text \<open>\<open>onion_dict_get\<close>: \<open>None\<close> is the null result.\<close>

definition onion_dict_get :: "onion_dict \<Rightarrow> cstring \<Rightarrow> cstring option" where
  "onion_dict_get dict k =
     (let r = onion_dict_find_node (root dict) k
      in if r \<noteq> Null then Some (val (data r)) else None)"

text \<open>
  \<open>onion_dict_node_preorder\<close> and \<open>onion_dict_preorder\<close>. The visitor is a function of
  the key, the value and the caller's \<open>data\<close>, whose effect on \<open>data\<close> is the state
  \<open>'s\<close> it returns. A null \<open>dict\<close> is \<open>None\<close>.
\<close>

fun onion_dict_node_preorder ::
  "onion_dict_node \<Rightarrow> (cstring \<Rightarrow> cstring \<Rightarrow> 's \<Rightarrow> 's) \<Rightarrow> 's \<Rightarrow> 's" where
  "onion_dict_node_preorder (Node d lv l r) f s =
     (let s1 = (if l \<noteq> Null then onion_dict_node_preorder l f s else s);
          s2 = f (key d) (val d) s1
      in if r \<noteq> Null then onion_dict_node_preorder r f s2 else s2)"

definition onion_dict_preorder ::
  "onion_dict option \<Rightarrow> (cstring \<Rightarrow> cstring \<Rightarrow> 's \<Rightarrow> 's) \<Rightarrow> 's \<Rightarrow> 's" where
  "onion_dict_preorder dict f s =
     (case dict of
        None \<Rightarrow> s
      | Some dct \<Rightarrow> if root dct = Null then s else onion_dict_node_preorder (root dct) f s)"

text \<open>
  \<open>onion_dict_node_count\<close> and \<open>onion_dict_count\<close>. The counter is a C \<open>int\<close>, which
  cannot overflow before the tree has \<open>2^31\<close> nodes; it is modelled as an integer.
\<close>

fun onion_dict_node_count :: "onion_dict_node \<Rightarrow> int" where
  "onion_dict_node_count (Node d lv l r) =
     1 + (if l \<noteq> Null then onion_dict_node_count l else 0)
       + (if r \<noteq> Null then onion_dict_node_count r else 0)"

definition onion_dict_count :: "onion_dict option \<Rightarrow> int" where
  "onion_dict_count dict =
     (case dict of
        None \<Rightarrow> 0
      | Some dct \<Rightarrow> if root dct \<noteq> Null then onion_dict_node_count (root dct) else 0)"

section \<open>Sequences of operations\<close>

datatype dict_op =
  Add cstring cstring "32 word" cptr cptr
| Remove cstring

text \<open>
  A sequence of calls of \<open>onion_dict_add\<close> and \<open>onion_dict_remove\<close>, folded over the plain
  operations from the empty dictionary. It is what the program computes where the run
  reads no freed string (\<open>run_chk\<close> below, lemma \<open>run_chk_agree\<close>).
\<close>

fun apply_op :: "od_flags \<Rightarrow> onion_dict \<Rightarrow> dict_op \<Rightarrow> onion_dict" where
  "apply_op od dict (Add k v fl ka va) = onion_dict_add od dict k v fl ka va"
| "apply_op od dict (Remove k) = fst (onion_dict_remove od dict k)"

definition run_ops :: "od_flags \<Rightarrow> dict_op list \<Rightarrow> onion_dict" where
  "run_ops od ops = foldl (apply_op od) onion_dict_new ops"

section \<open>Invariants\<close>

text \<open>The entries of a tree, left subtree first, then the node, then the right subtree.\<close>

fun inorder :: "onion_dict_node \<Rightarrow> onion_dict_node_data list" where
  "inorder Null = []"
| "inorder (Node d lv l r) = inorder l @ d # inorder r"

definition keycmp :: "onion_dict_node_data \<Rightarrow> onion_dict_node_data \<Rightarrow> int" where
  "keycmp a b = strcmp (bytes (key a)) (bytes (key b))"

text \<open>
  The search-tree property in the strict form: keys on the left strictly less, keys on
  the right greater or equal.
\<close>

fun bst_strict :: "onion_dict_node \<Rightarrow> bool" where
  "bst_strict Null = True"
| "bst_strict (Node d lv l r) =
     (bst_strict l \<and> bst_strict r \<and>
      list_all (\<lambda>x. keycmp x d < 0) (inorder l) \<and>
      list_all (\<lambda>x. keycmp x d \<ge> 0) (inorder r))"

text \<open>The search-tree property with equal keys allowed on both sides.\<close>

fun bst :: "onion_dict_node \<Rightarrow> bool" where
  "bst Null = True"
| "bst (Node d lv l r) =
     (bst l \<and> bst r \<and>
      list_all (\<lambda>x. keycmp x d \<le> 0) (inorder l) \<and>
      list_all (\<lambda>x. keycmp x d \<ge> 0) (inorder r))"

text \<open>
  The level invariants as the specification lists them, on the children that exist:
  a leaf has level 1, a left child is one level below, a right child is level or one
  below, and a right child's right child is strictly below.
\<close>

fun aa_levels :: "onion_dict_node \<Rightarrow> bool" where
  "aa_levels Null = True"
| "aa_levels (Node d lv l r) =
     (aa_levels l \<and> aa_levels r \<and>
      (if l = Null \<and> r = Null then lv = 1 else True) \<and>
      (case l of Null \<Rightarrow> True | Node ld llv ll lr \<Rightarrow> llv = lv - 1) \<and>
      (case r of Null \<Rightarrow> True
       | Node rd rlv rl rr \<Rightarrow>
           (rlv = lv \<or> rlv = lv - 1) \<and>
           (case rr of Null \<Rightarrow> True | Node rrd rrlv rrl rrr \<Rightarrow> rrlv < lv)))"

text \<open>
  The AA invariant in its usual form, a null child counting as level 0. It is what
  the operations maintain, and it implies \<open>aa_levels\<close>.
\<close>

fun aa_inv :: "onion_dict_node \<Rightarrow> bool" where
  "aa_inv Null = True"
| "aa_inv (Node d lv l r) =
     (aa_inv l \<and> aa_inv r \<and> lv = lvl l + 1 \<and>
      (lv = lvl r + 1 \<or>
       (case r of Null \<Rightarrow> False | Node rd rlv rl rr \<Rightarrow> rlv = lv \<and> lv = lvl rr + 1)))"

text \<open>
  What \<open>aa_inv\<close> asks beyond the conditions of \<open>aa_levels\<close>: a node lacking a child has
  level 1.
\<close>

fun no_gap :: "onion_dict_node \<Rightarrow> bool" where
  "no_gap Null = True"
| "no_gap (Node d lv l r) =
     (no_gap l \<and> no_gap r \<and> (if l = Null \<or> r = Null then lv = 1 else True))"

text \<open>
  The bytes \<open>strcmp\<close> reads, as numbers: the string up to its first NUL. The sign of
  \<open>strcmp\<close> is the lexicographic order of these lists.
\<close>

definition cs :: "string \<Rightarrow> nat list" where
  "cs s = map of_char (takeWhile (\<lambda>c. c \<noteq> NUL) s)"

text \<open>When \<open>skew\<close> rotates: the left child exists and has the level of the node.\<close>

definition skew_applies :: "onion_dict_node \<Rightarrow> bool" where
  "skew_applies node =
     (case node of
        Null \<Rightarrow> False
      | Node d lv l r \<Rightarrow> (case l of Null \<Rightarrow> False | Node ld llv ll lr \<Rightarrow> llv = lv))"

text \<open>When \<open>split\<close> rotates: the right grandchild exists and has the level of the node.\<close>

definition split_applies :: "onion_dict_node \<Rightarrow> bool" where
  "split_applies node =
     (case node of
        Null \<Rightarrow> False
      | Node d lv l r \<Rightarrow>
          (case r of
             Null \<Rightarrow> False
           | Node rd rlv rl rr \<Rightarrow>
               (case rr of Null \<Rightarrow> False | Node rrd rrlv rrl rrr \<Rightarrow> rrlv = lv)))"

text \<open>Auxiliary notions: additions, the canonical key of an entry, the order of entries.\<close>

fun is_add :: "dict_op \<Rightarrow> bool" where
  "is_add (Add k v fl ka va) = True"
| "is_add (Remove k) = False"

definition ck :: "onion_dict_node_data \<Rightarrow> nat list" where
  "ck d = cs (bytes (key d))"

definition kle :: "onion_dict_node_data \<Rightarrow> onion_dict_node_data \<Rightarrow> bool" where
  "kle a b = (keycmp a b \<le> 0)"

text \<open>The level of the right child of a node, 0 where there is none.\<close>

definition rlvl :: "onion_dict_node \<Rightarrow> int" where
  "rlvl t = (case t of Null \<Rightarrow> 0 | Node d lv l r \<Rightarrow> lvl r)"

text \<open>A node with no horizontal right link: its right child is strictly below it.\<close>

definition single :: "onion_dict_node \<Rightarrow> bool" where
  "single t = (rlvl t < lvl t)"

text \<open>
  A node as \<open>onion_dict_node_remove\<close> hands it to its rebalancing steps when the tree
  it works on satisfies \<open>aa_inv\<close>: both children satisfy \<open>aa_inv\<close>, and at most one of them
  has sunk by one level below what \<open>aa_inv\<close> asks of the node.
\<close>

definition removal_site :: "onion_dict_node \<Rightarrow> bool" where
  "removal_site t =
     (case t of
        Null \<Rightarrow> False
      | Node d lv l r \<Rightarrow>
          aa_inv l \<and> aa_inv r \<and>
          (lvl l = lv - 1 \<and>
             (lvl r = lv - 1 \<or> lvl r = lv - 2 \<or> lvl r = lv \<and> rlvl r = lv - 1) \<or>
           lvl l = lv - 2 \<and> (lvl r = lv - 1 \<or> lvl r = lv \<and> rlvl r = lv - 1)))"

text \<open>
  What a removal does to a subtree: the result satisfies \<open>aa_inv\<close>, its level is the same
  or one less, and a subtree without a horizontal right link that keeps its level still
  has none.
\<close>

definition removed :: "onion_dict_node \<Rightarrow> onion_dict_node \<Rightarrow> bool" where
  "removed t t' =
     (aa_inv t' \<and> (lvl t' = lvl t \<or> lvl t' = lvl t - 1) \<and>
      (if lvl t' = lvl t \<and> single t then single t' else True))"

text \<open>
  What an insertion does to a subtree: the result satisfies \<open>aa_inv\<close>, its level is the
  same or one more, in the latter case without a horizontal right link, and a subtree
  without a horizontal right link keeps its level.
\<close>

definition added :: "onion_dict_node \<Rightarrow> onion_dict_node \<Rightarrow> bool" where
  "added t t' =
     (aa_inv t' \<and> (lvl t' = lvl t \<or> lvl t' = lvl t + 1 \<and> single t') \<and>
      (if single t then lvl t' = lvl t else True))"

text \<open>The canonical keys of a tree, in order.\<close>

definition keys :: "onion_dict_node \<Rightarrow> nat list list" where
  "keys t = map ck (inorder t)"

text \<open>A string of 7-bit bytes: on such strings \<open>strcmp\<close> fits a \<open>signed char\<close>.\<close>

definition ascii :: "string \<Rightarrow> bool" where
  "ascii s = list_all (\<lambda>c. byte c < 128) s"

text \<open>The invariant of a dictionary: search-tree order and the AA invariant.\<close>

definition dict_inv :: "onion_dict \<Rightarrow> bool" where
  "dict_inv dict = (bst (root dict) \<and> aa_inv (root dict))"

text \<open>The level \<open>decrease_level\<close> computes: one more than the lower of the children's levels.\<close>

definition should_be :: "onion_dict_node \<Rightarrow> onion_dict_node \<Rightarrow> int" where
  "should_be l r = min (lvl l) (lvl r) + 1"

text \<open>
  The addresses the entries of a tree own: those \<open>onion_dict_node_data_free\<close> would pass to
  \<open>free\<close>, entry by entry.
\<close>

definition owned :: "od_flags \<Rightarrow> onion_dict_node \<Rightarrow> cptr list" where
  "owned od t = concat (map (onion_dict_node_data_free od) (inorder t))"

text \<open>No entry of the dictionary has a key equal to \<open>k\<close>.\<close>

definition key_absent :: "cstring \<Rightarrow> onion_dict \<Rightarrow> bool" where
  "key_absent k dict =
     list_all (\<lambda>d. strcmp (bytes k) (bytes (key d)) \<noteq> 0) (inorder (root dict))"

text \<open>Exactly one entry of the dictionary has a key equal to \<open>k\<close>.\<close>

definition key_once :: "cstring \<Rightarrow> onion_dict \<Rightarrow> bool" where
  "key_once k dict =
     (length (filter (\<lambda>d. strcmp (bytes k) (bytes (key d)) = 0) (inorder (root dict))) = 1)"

text \<open>All keys of the dictionary are 7-bit strings.\<close>

definition keys_7bit :: "onion_dict \<Rightarrow> bool" where
  "keys_7bit dict = list_all (\<lambda>d. ascii (bytes (key d))) (inorder (root dict))"

section \<open>The operations with the free log checked\<close>

text \<open>
  The same operations with the list of freed addresses passed along. A call of \<open>strcmp\<close>,
  \<open>strdup\<close> or \<open>free\<close> on an address of the list is undefined behaviour in C: there the
  checked operation is \<open>Stuck\<close>, and so is everything after it. Where a checked operation
  is \<open>Done\<close>, every string the program has read was allocated, and the result is the one
  the plain operation computes.
\<close>

datatype 'a checked = Stuck | Done 'a

text \<open>\<open>strcmp\<close> reads both strings.\<close>

definition strcmp_chk :: "cptr list \<Rightarrow> cstring \<Rightarrow> cstring \<Rightarrow> int checked" where
  "strcmp_chk fs a b =
     (if addr a \<in> set fs \<or> addr b \<in> set fs then Stuck
      else Done (strcmp (bytes a) (bytes b)))"

text \<open>
  The calls of \<open>free\<close> of one \<open>onion_dict_node_data_free\<close>: no address twice, none that
  was freed before.
\<close>

definition free_chk :: "cptr list \<Rightarrow> cptr list \<Rightarrow> cptr list checked" where
  "free_chk fs ps =
     (if distinct ps \<and> set ps \<inter> set fs = {} then Done (fs @ ps) else Stuck)"

text \<open>\<open>onion_dict_find_node\<close> and \<open>onion_dict_get\<close>: one \<open>strcmp\<close> at each node visited.\<close>

fun onion_dict_find_node_chk ::
  "cptr list \<Rightarrow> onion_dict_node \<Rightarrow> cstring \<Rightarrow> onion_dict_node checked" where
  "onion_dict_find_node_chk fs Null k = Done Null"
| "onion_dict_find_node_chk fs (Node d lv l r) k =
     (case strcmp_chk fs k (key d) of
        Stuck \<Rightarrow> Stuck
      | Done c \<Rightarrow>
          (let cmp = to_schar c in
           if cmp = 0 then Done (Node d lv l r)
           else if cmp < 0 then onion_dict_find_node_chk fs l k
           else if cmp > 0 then onion_dict_find_node_chk fs r k
           else Done Null))"

definition onion_dict_get_chk ::
  "cptr list \<Rightarrow> onion_dict \<Rightarrow> cstring \<Rightarrow> cstring option checked" where
  "onion_dict_get_chk fs dict k =
     (case onion_dict_find_node_chk fs (root dict) k of
        Stuck \<Rightarrow> Stuck
      | Done r \<Rightarrow> Done (if r \<noteq> Null then Some (val (data r)) else None))"

text \<open>
  \<open>onion_dict_node_add\<close> and \<open>onion_dict_add\<close>. \<open>onion_dict_node_new\<close> runs first: \<open>strdup\<close>
  reads the string it copies. The addresses \<open>ka\<close> and \<open>va\<close> it returns name new
  allocations; a run that hands it an address of the list is no run of the program, and
  is \<open>Stuck\<close> as well.
\<close>

fun onion_dict_node_add_chk ::
  "cptr list \<Rightarrow> onion_dict_node \<Rightarrow> onion_dict_node \<Rightarrow> onion_dict_node checked" where
  "onion_dict_node_add_chk fs Null nnode = Done nnode"
| "onion_dict_node_add_chk fs (Node d lv l r) nnode =
     (case strcmp_chk fs (key (data nnode)) (key d) of
        Stuck \<Rightarrow> Stuck
      | Done cmp \<Rightarrow>
          if cmp < 0 then
            (case onion_dict_node_add_chk fs l nnode of
               Stuck \<Rightarrow> Stuck
             | Done l' \<Rightarrow> Done (split (skew (Node d lv l' r))))
          else
            (case onion_dict_node_add_chk fs r nnode of
               Stuck \<Rightarrow> Stuck
             | Done r' \<Rightarrow> Done (split (skew (Node d lv l r')))))"

definition onion_dict_add_chk ::
  "od_flags \<Rightarrow> onion_dict \<times> cptr list \<Rightarrow> cstring \<Rightarrow> cstring \<Rightarrow> 32 word \<Rightarrow> cptr \<Rightarrow> cptr \<Rightarrow>
   (onion_dict \<times> cptr list) checked" where
  "onion_dict_add_chk od st k v fl ka va =
     (case st of (dict, fs) \<Rightarrow>
        if (fl AND OD_DUP_KEY od = OD_DUP_KEY od \<and> (addr k \<in> set fs \<or> ka \<in> set fs)) \<or>
           (fl AND OD_DUP_VALUE od = OD_DUP_VALUE od \<and> (addr v \<in> set fs \<or> va \<in> set fs))
        then Stuck
        else
          (case onion_dict_node_add_chk fs (root dict) (onion_dict_node_new od k v fl ka va) of
             Stuck \<Rightarrow> Stuck
           | Done t \<Rightarrow> Done (dict\<lparr>root := t\<rparr>, fs)))"

text \<open>
  \<open>onion_dict_node_remove\<close> and \<open>onion_dict_remove\<close>: the \<open>strcmp\<close> at each node visited,
  the calls of \<open>free\<close> at the node found, and the removal of the donor by its key, which
  starts after those calls.
\<close>

function onion_dict_node_remove_chk ::
  "od_flags \<Rightarrow> cptr list \<Rightarrow> onion_dict_node \<Rightarrow> cstring \<Rightarrow> (onion_dict_node \<times> cptr list) checked" where
  "onion_dict_node_remove_chk od fs Null k = Done (Null, fs)"
| "onion_dict_node_remove_chk od fs (Node d lv l r) k =
     (case strcmp_chk fs k (key d) of
        Stuck \<Rightarrow> Stuck
      | Done cmp \<Rightarrow>
          if cmp < 0 then
            (case onion_dict_node_remove_chk od fs l k of
               Stuck \<Rightarrow> Stuck
             | Done (l', fs') \<Rightarrow> Done (rebalance (Node d lv l' r), fs'))
          else if cmp > 0 then
            (case onion_dict_node_remove_chk od fs r k of
               Stuck \<Rightarrow> Stuck
             | Done (r', fs') \<Rightarrow> Done (rebalance (Node d lv l r'), fs'))
          else
            (case free_chk fs (onion_dict_node_data_free od d) of
               Stuck \<Rightarrow> Stuck
             | Done fs0 \<Rightarrow>
                 if l = Null \<and> r = Null then Done (Null, fs0)
                 else if l = Null then
                   (let td = leftmost_data r in
                    case onion_dict_node_remove_chk od fs0 (leftmost_clear r) (key td) of
                      Stuck \<Rightarrow> Stuck
                    | Done (r', fs') \<Rightarrow> Done (rebalance (Node td lv l r'), fs'))
                 else
                   (let td = rightmost_data l in
                    case onion_dict_node_remove_chk od fs0 (rightmost_clear l) (key td) of
                      Stuck \<Rightarrow> Stuck
                    | Done (l', fs') \<Rightarrow> Done (rebalance (Node td lv l' r), fs'))))"
  by pat_completeness auto
termination
proof -
  have l: "size (leftmost_clear t) = size t" for t
    by (induction t rule: leftmost_clear.induct) simp_all
  have r: "size (rightmost_clear t) = size t" for t
    by (induction t rule: rightmost_clear.induct) simp_all
  show ?thesis
    by (relation "measure (\<lambda>(od, fs, t, k). size t)") (auto simp: l r)
qed

definition onion_dict_remove_chk ::
  "od_flags \<Rightarrow> onion_dict \<times> cptr list \<Rightarrow> cstring \<Rightarrow> (onion_dict \<times> int \<times> cptr list) checked" where
  "onion_dict_remove_chk od st k =
     (case st of (dict, fs) \<Rightarrow>
        (case onion_dict_node_remove_chk od fs (root dict) k of
           Stuck \<Rightarrow> Stuck
         | Done (r, fs') \<Rightarrow> Done (dict\<lparr>root := r\<rparr>, 1, fs')))"

text \<open>Sequences of operations from the empty dictionary and the empty list.\<close>

fun apply_op_chk ::
  "od_flags \<Rightarrow> onion_dict \<times> cptr list \<Rightarrow> dict_op \<Rightarrow> (onion_dict \<times> cptr list) checked" where
  "apply_op_chk od st (Add k v fl ka va) = onion_dict_add_chk od st k v fl ka va"
| "apply_op_chk od st (Remove k) =
     (case onion_dict_remove_chk od st k of
        Stuck \<Rightarrow> Stuck
      | Done (dict', rc, fs') \<Rightarrow> Done (dict', fs'))"

fun run_from_chk ::
  "od_flags \<Rightarrow> onion_dict \<times> cptr list \<Rightarrow> dict_op list \<Rightarrow> (onion_dict \<times> cptr list) checked" where
  "run_from_chk od st [] = Done st"
| "run_from_chk od st (x # xs) =
     (case apply_op_chk od st x of
        Stuck \<Rightarrow> Stuck
      | Done st' \<Rightarrow> run_from_chk od st' xs)"

definition run_chk :: "od_flags \<Rightarrow> dict_op list \<Rightarrow> (onion_dict \<times> cptr list) checked" where
  "run_chk od ops = run_from_chk od (onion_dict_new, []) ops"

text \<open>No key of the dictionary is at a freed address.\<close>

definition keys_live :: "cptr list \<Rightarrow> onion_dict \<Rightarrow> bool" where
  "keys_live fs dict = list_all (\<lambda>d. addr (key d) \<notin> set fs) (inorder (root dict))"

text \<open>
  The addresses an entry stands on: that of its key and, if the entry owns its value,
  that of the value. Where the addresses of all entries of a tree are distinct, no two
  entries share a key string, and no string an entry owns is a string of another entry.
\<close>

definition cell :: "od_flags \<Rightarrow> onion_dict_node_data \<Rightarrow> cptr list" where
  "cell od d =
     addr (key d) #
     (if (scast (flags d) :: 32 word) AND OD_FREE_VALUE od \<noteq> 0 then [addr (val d)] else [])"

definition cells :: "od_flags \<Rightarrow> onion_dict_node \<Rightarrow> cptr list" where
  "cells od t = concat (map (cell od) (inorder t))"

text \<open>
  An operation that leaves the dictionary owning no string: a removal, or an addition
  whose flags ask for no \<open>free\<close>.
\<close>

fun borrows :: "od_flags \<Rightarrow> dict_op \<Rightarrow> bool" where
  "borrows od (Add k v fl ka va) =
     (onion_dict_node_data_free od (onion_dict_set_node_data od k v fl ka va) = [])"
| "borrows od (Remove k) = True"

section \<open>Concrete values for the examples\<close>

definition od_example :: od_flags where
  "od_example = \<lparr>OD_FREE_KEY = 2, OD_FREE_VALUE = 4, OD_DUP_KEY = 18, OD_DUP_VALUE = 36\<rparr>"

definition cstr :: "cptr \<Rightarrow> string \<Rightarrow> cstring" where
  "cstr p s = \<lparr>addr = p, bytes = s\<rparr>"

definition entry :: "string \<Rightarrow> string \<Rightarrow> onion_dict_node_data" where
  "entry k v = \<lparr>key = cstr 0 k, val = cstr 0 v, flags = 0\<rparr>"

text \<open>
  The dictionary of the example: \<open>b\<close>, \<open>a\<close>, \<open>c\<close> added in this order with flags
  \<open>0x36\<close>, which with the example constants duplicates and owns keys and values.
\<close>

definition ops_abc :: "dict_op list" where
  "ops_abc =
     [Add (cstr 1 ''b'') (cstr 2 ''2'') 54 10 11, Add (cstr 3 ''a'') (cstr 4 ''1'') 54 12 13,
      Add (cstr 5 ''c'') (cstr 6 ''3'') 54 14 15]"

definition dict_abc :: onion_dict where
  "dict_abc = run_ops od_example ops_abc"

text \<open>The same dictionary after the removal of \<open>b\<close>.\<close>

definition dict_ac :: onion_dict where
  "dict_ac =
     \<lparr>root = Node \<lparr>key = cstr 12 ''a'', val = cstr 13 ''1'', flags = 54\<rparr> 1 Null
         (Node \<lparr>key = cstr 14 ''c'', val = cstr 15 ''3'', flags = 54\<rparr> 1 Null Null)\<rparr>"

text \<open>
  Four additions with equal keys among them: \<open>a\<close>, \<open>b\<close>, \<open>b\<close>, \<open>a\<close>, with flags \<open>0x36\<close>.
\<close>

definition ops_abba :: "dict_op list" where
  "ops_abba =
     [Add (cstr 1 ''a'') (cstr 2 ''1'') 54 10 11, Add (cstr 3 ''b'') (cstr 4 ''2'') 54 12 13,
      Add (cstr 5 ''b'') (cstr 6 ''3'') 54 14 15, Add (cstr 7 ''a'') (cstr 8 ''4'') 54 16 17]"

text \<open>
  Twelve operations that leave an entry in the tree twice, and the dictionary they end in:
  the root, its flags cleared, holds the strings that the entry \<open>a\<close> below \<open>b\<close> owns.
\<close>

definition ops_alias :: "dict_op list" where
  "ops_alias =
     [Add (cstr 1 ''b'') (cstr 2 ''0'') 54 100 101, Add (cstr 1 ''a'') (cstr 2 ''1'') 54 102 103,
      Add (cstr 1 ''c'') (cstr 2 ''2'') 54 104 105, Add (cstr 1 ''a'') (cstr 2 ''3'') 54 106 107,
      Add (cstr 1 ''a'') (cstr 2 ''4'') 54 108 109, Add (cstr 1 ''b'') (cstr 2 ''5'') 54 110 111,
      Add (cstr 1 ''c'') (cstr 2 ''6'') 54 112 113, Add (cstr 1 ''a'') (cstr 2 ''7'') 54 114 115,
      Remove (cstr 1 ''c''), Remove (cstr 1 ''b''), Remove (cstr 1 ''a''),
      Add (cstr 1 ''a'') (cstr 2 ''8'') 54 116 117]"

definition dict_alias :: onion_dict where
  "dict_alias =
     \<lparr>root = Node \<lparr>key = cstr 114 ''a'', val = cstr 115 ''7'', flags = 0\<rparr> 2
        (Node \<lparr>key = cstr 102 ''a'', val = cstr 103 ''1'', flags = 54\<rparr> 1 Null Null)
        (Node \<lparr>key = cstr 110 ''b'', val = cstr 111 ''5'', flags = 54\<rparr> 2
           (Node \<lparr>key = cstr 114 ''a'', val = cstr 115 ''7'', flags = 54\<rparr> 1 Null
              (Node \<lparr>key = cstr 116 ''a'', val = cstr 117 ''8'', flags = 54\<rparr> 1 Null Null))
           (Node \<lparr>key = cstr 112 ''c'', val = cstr 113 ''6'', flags = 54\<rparr> 1 Null Null))\<rparr>"

section \<open>The order of keys\<close>

lemma byte_nonneg: "0 \<le> byte c"
  by (simp add: byte_def)

lemma byte_lt: "byte c < 256"
  unfolding byte_def using nat_of_char_less_256 [of c] by linarith

lemma byte_eq_iff: "byte a = byte b \<longleftrightarrow> a = b"
  by (simp add: byte_def)

lemma byte_NUL: "byte NUL = 0"
  by (simp add: byte_def NUL_def)

lemma byte_zero_iff: "byte a = 0 \<longleftrightarrow> a = NUL"
  using byte_eq_iff [of a NUL] by (simp add: byte_NUL)

lemma cs_Nil: "cs [] = []"
  by (simp add: cs_def)

lemma cs_Cons: "cs (a # as) = (if a = NUL then [] else nat (byte a) # cs as)"
  by (simp add: cs_def byte_def)

lemma strcmp_lt: "strcmp a b < 0 \<longleftrightarrow> cs a < cs b"
proof (induction a b rule: strcmp.induct)
  case 1
  show ?case by (simp add: cs_Nil)
next
  case (2 b bs)
  show ?case
    using byte_nonneg [of b] byte_zero_iff [of b] by (auto simp: cs_Nil cs_Cons)
next
  case (3 a as)
  show ?case using byte_nonneg [of a] by (simp add: cs_Nil)
next
  case (4 a as b bs)
  show ?case
    using 4 byte_nonneg [of a] byte_nonneg [of b] byte_zero_iff [of a]
      byte_zero_iff [of b] byte_eq_iff [of a b]
    by (auto simp: cs_Cons)
qed

lemma strcmp_eq: "strcmp a b = 0 \<longleftrightarrow> cs a = cs b"
proof (induction a b rule: strcmp.induct)
  case 1
  show ?case by (simp add: cs_Nil)
next
  case (2 b bs)
  show ?case
    using byte_nonneg [of b] byte_zero_iff [of b] by (auto simp: cs_Nil cs_Cons)
next
  case (3 a as)
  show ?case
    using byte_nonneg [of a] byte_zero_iff [of a] by (auto simp: cs_Nil cs_Cons)
next
  case (4 a as b bs)
  show ?case
    using 4 byte_nonneg [of a] byte_nonneg [of b] byte_zero_iff [of a]
      byte_zero_iff [of b] byte_eq_iff [of a b]
    by (auto simp: cs_Cons)
qed

lemma strcmp_le: "strcmp a b \<le> 0 \<longleftrightarrow> cs a \<le> cs b"
  using strcmp_lt [of a b] strcmp_eq [of a b] by auto

lemma strcmp_gt: "0 < strcmp a b \<longleftrightarrow> cs b < cs a"
  using strcmp_le [of a b] by auto

lemma strcmp_ge: "0 \<le> strcmp a b \<longleftrightarrow> cs b \<le> cs a"
  using strcmp_lt [of a b] by auto

lemma strcmp_bound: "- 255 \<le> strcmp a b \<and> strcmp a b \<le> 255"
proof (induction a b rule: strcmp.induct)
  case (2 b bs)
  show ?case using byte_nonneg [of b] byte_lt [of b] by simp
next
  case (3 a as)
  show ?case using byte_nonneg [of a] byte_lt [of a] by simp
next
  case (4 a as b bs)
  show ?case
    using 4 byte_nonneg [of a] byte_lt [of a] byte_nonneg [of b] byte_lt [of b] by auto
qed simp

text \<open>The narrowing to \<open>signed char\<close>, on the range of \<open>strcmp\<close>.\<close>

lemma to_schar_shift: "to_schar i = (i + 128) mod 256 - 128"
  unfolding to_schar_def
  by (simp add: sint_sbintrunc' signed_take_bit_eq_take_bit_shift take_bit_eq_mod)

lemma to_schar_id: "- 128 \<le> i \<Longrightarrow> i \<le> 127 \<Longrightarrow> to_schar i = i"
proof -
  assume a: "- 128 \<le> i" "i \<le> 127"
  have "(i + 128) mod 256 = i + 128"
    by (rule mod_pos_pos_trivial) (use a in linarith)+
  then show ?thesis by (simp only: to_schar_shift)
qed

lemma to_schar_lo: "- 255 \<le> i \<Longrightarrow> i < - 128 \<Longrightarrow> to_schar i = i + 256"
proof -
  assume a: "- 255 \<le> i" "i < - 128"
  have "(i + 128) mod 256 = (i + 128 + 256) mod 256"
    by (simp only: mod_add_self2)
  also have "\<dots> = i + 128 + 256"
    by (rule mod_pos_pos_trivial) (use a in linarith)+
  finally show ?thesis by (simp only: to_schar_shift)
qed

lemma to_schar_hi: "127 < i \<Longrightarrow> i \<le> 255 \<Longrightarrow> to_schar i = i - 256"
proof -
  assume a: "127 < i" "i \<le> 255"
  have e: "i + 128 = (i - 128) + 256" by linarith
  have "(i + 128) mod 256 = ((i - 128) + 256) mod 256"
    by (rule arg_cong [OF e])
  also have "\<dots> = (i - 128) mod 256"
    by (simp only: mod_add_self2)
  also have "\<dots> = i - 128"
    by (rule mod_pos_pos_trivial) (use a in linarith)+
  finally show ?thesis by (simp only: to_schar_shift)
qed

lemma to_schar_zero: "- 255 \<le> i \<Longrightarrow> i \<le> 255 \<Longrightarrow> to_schar i = 0 \<longleftrightarrow> i = 0"
  using to_schar_id [of i] to_schar_lo [of i] to_schar_hi [of i] by linarith

section \<open>The rotations keep the entries\<close>

lemma inorder_skew: "inorder (skew t) = inorder t"
  by (cases t rule: skew.cases) simp_all

lemma inorder_split: "inorder (split t) = inorder t"
  by (cases t rule: split.cases) simp_all

lemma skew_id: "\<not> skew_applies t \<Longrightarrow> skew t = t"
  by (cases t rule: skew.cases) (simp_all add: skew_applies_def)

lemma split_id: "\<not> split_applies t \<Longrightarrow> split t = t"
  by (cases t rule: split.cases) (simp_all add: split_applies_def)

section \<open>Entries, order and counting\<close>

lemma keycmp_le: "keycmp a b \<le> 0 \<longleftrightarrow> ck a \<le> ck b"
  by (simp add: keycmp_def ck_def strcmp_le)
lemma keycmp_ge: "0 \<le> keycmp a b \<longleftrightarrow> ck b \<le> ck a"
  by (simp add: keycmp_def ck_def strcmp_ge)
lemma sorted_wrt_kle: "sorted_wrt kle xs \<longleftrightarrow> sorted (map ck xs)"
proof -
  have "kle = (\<lambda>x y. ck x \<le> ck y)"
    by (intro ext) (simp add: kle_def keycmp_le)
  then show ?thesis by (simp add: sorted_map)
qed

lemma bst_sorted: "bst t \<longleftrightarrow> sorted (map ck (inorder t))"
proof (induction t)
  case Null
  show ?case by simp
next
  case (Node d lv l r)
  have cross: "\<forall>x\<in>set (inorder l). \<forall>y\<in>set (inorder r). ck x \<le> ck y"
    if "\<forall>x\<in>set (inorder l). ck x \<le> ck d" "\<forall>y\<in>set (inorder r). ck d \<le> ck y"
    using that order_trans by blast
  show ?case
    using Node cross
    by (auto simp: sorted_append list_all_iff keycmp_le keycmp_ge)
qed

lemma inorder_add:
  "\<exists>xs ys. inorder t = xs @ ys \<and> inorder (onion_dict_node_add t n) = xs @ inorder n @ ys"
proof (induction t)
  case Null
  show ?case by simp
next
  case (Node d lv l r)
  show ?case
  proof (cases "strcmp (bytes (key (data n))) (bytes (key d)) < 0")
    case True
    from Node.IH(1) obtain xs ys where
      "inorder l = xs @ ys" "inorder (onion_dict_node_add l n) = xs @ inorder n @ ys" by blast
    with True have
      "inorder (Node d lv l r) = xs @ (ys @ d # inorder r) \<and>
       inorder (onion_dict_node_add (Node d lv l r) n) = xs @ inorder n @ (ys @ d # inorder r)"
      by (simp add: inorder_skew inorder_split)
    then show ?thesis by blast
  next
    case False
    from Node.IH(2) obtain xs ys where
      "inorder r = xs @ ys" "inorder (onion_dict_node_add r n) = xs @ inorder n @ ys" by blast
    with False have
      "inorder (Node d lv l r) = (inorder l @ d # xs) @ ys \<and>
       inorder (onion_dict_node_add (Node d lv l r) n) = (inorder l @ d # xs) @ inorder n @ ys"
      by (simp add: inorder_skew inorder_split)
    then show ?thesis by blast
  qed
qed

lemma length_inorder_add:
  "length (inorder (onion_dict_node_add t n)) = length (inorder t) + length (inorder n)"
  using inorder_add [of t n] by auto

lemma node_count_length: "t \<noteq> Null \<Longrightarrow> onion_dict_node_count t = int (length (inorder t))"
  by (induction t) auto

lemma count_length: "onion_dict_count (Some dict) = int (length (inorder (root dict)))"
  by (simp add: onion_dict_count_def node_count_length)

lemma inorder_node_new:
  "inorder (onion_dict_node_new od k v fl ka va) = [onion_dict_set_node_data od k v fl ka va]"
  by (simp add: onion_dict_node_new_def)

lemma length_foldl_adds:
  "list_all is_add ops \<Longrightarrow>
   length (inorder (root (foldl (apply_op od) dict ops))) = length (inorder (root dict)) + length ops"
proof (induction ops arbitrary: dict)
  case Nil
  show ?case by simp
next
  case (Cons x xs)
  then obtain k v fl ka va where x: "x = Add k v fl ka va" by (cases x) auto
  have "length (inorder (root (apply_op od dict x))) = length (inorder (root dict)) + 1"
    by (simp add: x onion_dict_add_def length_inorder_add inorder_node_new)
  with Cons show ?case by simp
qed

lemma node_preorder_fold:
  "t \<noteq> Null \<Longrightarrow>
   onion_dict_node_preorder t f s = fold (\<lambda>d. f (key d) (val d)) (inorder t) s"
  by (induction t arbitrary: s) (auto simp: Let_def)

lemma preorder_fold:
  "onion_dict_preorder (Some dict) f s = fold (\<lambda>d. f (key d) (val d)) (inorder (root dict)) s"
  by (simp add: onion_dict_preorder_def node_preorder_fold)

lemma fold_log: "fold (\<lambda>d log. log @ [g d]) xs acc = acc @ map g xs"
  by (induction xs arbitrary: acc) auto

section \<open>The AA invariant\<close>

lemma aa_inv_lvl_nonneg: "aa_inv t \<Longrightarrow> 0 \<le> lvl t"
  by (induction t) (auto simp: aa_inv.simps(2))

lemma aa_inv_lvl_pos: "aa_inv t \<Longrightarrow> t \<noteq> Null \<Longrightarrow> 1 \<le> lvl t"
  using aa_inv_lvl_nonneg [of "left t"] by (cases t) (auto simp: aa_inv.simps(2))

lemma rlvl_simps [simp]: "rlvl Null = 0" "rlvl (Node d lv l r) = lvl r"
  by (simp_all add: rlvl_def)

lemma aa_inv_Node:
  "aa_inv (Node d lv l r) \<longleftrightarrow>
     aa_inv l \<and> aa_inv r \<and> lvl l = lv - 1 \<and> (lvl r = lv - 1 \<or> lvl r = lv \<and> rlvl r = lv - 1)"
proof (cases r)
  case Null
  show ?thesis unfolding Null aa_inv.simps by (simp; linarith)
next
  case (Node rd rlv rl rr)
  show ?thesis unfolding Node aa_inv.simps(2) [of d lv l] by (simp; linarith)
qed

declare aa_inv.simps(2) [simp del]

lemma rlvl_le: "aa_inv t \<Longrightarrow> rlvl t \<le> lvl t"
  by (cases t) (auto simp: aa_inv_Node)

lemma skew_noop: "lvl l \<noteq> lv \<Longrightarrow> skew (Node d lv l r) = Node d lv l r"
  by (cases l) auto

lemma split_noop: "rlvl r \<noteq> lv \<Longrightarrow> split (Node d lv l r) = Node d lv l r"
  by (cases r; cases "right r") auto

lemma skew_aa_inv: "aa_inv t \<Longrightarrow> skew t = t"
  by (cases t) (auto simp: aa_inv_Node skew_noop)

lemma split_aa_inv: "aa_inv t \<Longrightarrow> split t = t"
proof (cases t)
  case Null then show ?thesis by simp
next
  case (Node d lv l r)
  assume "aa_inv t"
  then have "rlvl r \<noteq> lv" using Node rlvl_le [of r] by (auto simp: aa_inv_Node)
  then show ?thesis using Node by (simp add: split_noop)
qed

lemma clamp_noop: "lvl r \<le> sb \<Longrightarrow> clamp_level sb r = r"
  by (cases r) auto

lemma decrease_level_aa_inv: "aa_inv (Node d lv l r) \<Longrightarrow> decrease_level (Node d lv l r) = Node d lv l r"
  by (auto simp: aa_inv_Node Let_def)

lemma skew_right_aa_inv: "aa_inv r \<Longrightarrow> skew_right (Node d lv l r) = Node d lv l r"
  by (simp add: skew_aa_inv)

lemma skew_right_right_aa_inv: "aa_inv r \<Longrightarrow> skew_right_right (Node d lv l r) = Node d lv l r"
  by (cases r) (auto simp: skew_aa_inv aa_inv_Node)

lemma split_right_aa_inv: "aa_inv r \<Longrightarrow> split_right (Node d lv l r) = Node d lv l r"
  by (simp add: split_aa_inv)

lemma rebalance_aa_inv: "aa_inv t \<Longrightarrow> t \<noteq> Null \<Longrightarrow> rebalance t = t"
proof (cases t)
  case Null then show "t \<noteq> Null \<Longrightarrow> ?thesis" by simp
next
  case (Node d lv l r)
  assume a: "aa_inv t"
  then have r: "aa_inv r" using Node by (simp add: aa_inv_Node)
  show ?thesis
    unfolding rebalance_def Let_def Node
    using a r Node
    by (simp only: decrease_level_aa_inv skew_aa_inv skew_right_aa_inv skew_right_right_aa_inv
        split_aa_inv split_right_aa_inv)
qed

section \<open>Rebalancing after a removal\<close>

lemma split_apply:
  "rr \<noteq> Null \<Longrightarrow> lvl rr = lv \<Longrightarrow>
   split (Node d lv l (Node rd rlv rl rr)) = Node rd (rlv + 1) (Node d lv l rl) rr"
  by (cases rr) auto

lemma lvl_pos_not_Null: "0 < lvl t \<Longrightarrow> t \<noteq> Null"
  by (cases t) auto

lemmas rb_simps = rebalance_def Let_def skew_noop split_noop clamp_noop skew_aa_inv split_aa_inv
  split_apply lvl_pos_not_Null

lemma rebalance_right_down_1:
  assumes "aa_inv r" "lvl r = lv - 2" "lvl lr = lv - 2" "aa_inv lr"
  shows "rebalance (Node d lv (Node ld (lv - 1) ll lr) r) =
         Node ld (lv - 1) ll (Node d (lv - 1) lr r)"
  using assms rlvl_le [of r] by (simp add: rb_simps)

lemma rebalance_right_down_2:
  assumes "aa_inv r" "lvl r = lv - 2" "lvl lrr = lv - 2"
  shows "rebalance (Node d lv (Node ld (lv - 1) ll (Node lrd (lv - 1) lrl lrr)) r) =
         Node lrd lv (Node ld (lv - 1) ll lrl) (Node d (lv - 1) lrr r)"
  using assms rlvl_le [of r] by (simp add: rb_simps)

lemma rebalance_left_down_1:
  assumes "aa_inv r" "lvl l = lv - 2" "lvl r = lv - 1" "rlvl r = lv - 2"
  shows "rebalance (Node d lv l r) = Node d (lv - 1) l r"
  using assms by (simp add: rb_simps skew_right_right_aa_inv)

lemma rebalance_left_down_2:
  assumes "aa_inv rr" "2 \<le> lv" "lvl l = lv - 2" "lvl rr = lv - 1" "lvl rl = lv - 2"
  shows "rebalance (Node d lv l (Node rd (lv - 1) rl rr)) =
         Node rd lv (Node d (lv - 1) l rl) rr"
  using assms by (simp add: rb_simps)

lemma rebalance_both_down_1:
  assumes "aa_inv rr" "2 \<le> lv" "lvl l = lv - 2" "lvl rr = lv - 1" "rlvl rr = lv - 2"
    "lvl rlr = lv - 2"
  shows "rebalance (Node d lv l (Node rd lv (Node rld (lv - 1) rll rlr) rr)) =
         Node rld lv (Node d (lv - 1) l rll) (Node rd (lv - 1) rlr rr)"
  using assms by (simp add: rb_simps)

lemma rebalance_both_down_2:
  assumes "2 \<le> lv" "lvl l = lv - 2" "lvl rrr = lv - 1" "lvl rlr = lv - 2"
  shows "rebalance (Node d lv l (Node rd lv (Node rld (lv - 1) rll rlr) (Node rrd (lv - 1) rrl rrr))) =
         Node rld lv (Node d (lv - 1) l rll) (Node rrd lv (Node rd (lv - 1) rlr rrl) rrr)"
  using assms by (simp add: rb_simps)

lemma rebalance_both_down_3:
  assumes "2 \<le> lv" "lvl l = lv - 2" "lvl rr = lv - 1" "lvl rlrr = lv - 2"
  shows "rebalance (Node d lv l (Node rd lv (Node rld (lv - 1) rll (Node rlrd (lv - 1) rlrl rlrr)) rr)) =
         Node rld lv (Node d (lv - 1) l rll) (Node rd lv (Node rlrd (lv - 1) rlrl rlrr) rr)"
  using assms by (simp add: rb_simps)

lemma single_Node [simp]: "single (Node d lv l r) \<longleftrightarrow> lvl r < lv"
  by (simp add: single_def)

lemma single_Null [simp]: "\<not> single Null"
  by (simp add: single_def)

lemma removal_site_Node:
  "removal_site (Node d lv l r) \<longleftrightarrow>
     aa_inv l \<and> aa_inv r \<and>
     (lvl l = lv - 1 \<and>
        (lvl r = lv - 1 \<or> lvl r = lv - 2 \<or> lvl r = lv \<and> rlvl r = lv - 1) \<or>
      lvl l = lv - 2 \<and> (lvl r = lv - 1 \<or> lvl r = lv \<and> rlvl r = lv - 1))"
  by (simp add: removal_site_def)

lemma rebalance_site:
  assumes site: "removal_site (Node d lv l r)"
  shows "aa_inv (rebalance (Node d lv l r)) \<and>
         (lvl (rebalance (Node d lv l r)) = lv \<or> lvl (rebalance (Node d lv l r)) = lv - 1) \<and>
         (lvl r < lv \<longrightarrow> lvl (rebalance (Node d lv l r)) = lv \<longrightarrow>
            single (rebalance (Node d lv l r)))"
proof -
  from site have il: "aa_inv l" and ir: "aa_inv r"
    by (simp_all add: removal_site_def)
  have nl: "0 \<le> lvl l" and nr: "0 \<le> lvl r"
    using il ir by (simp_all add: aa_inv_lvl_nonneg)
  from site consider
      (keep) "lvl l = lv - 1" "lvl r = lv - 1 \<or> lvl r = lv \<and> rlvl r = lv - 1"
    | (right_down) "lvl l = lv - 1" "lvl r = lv - 2"
    | (left_down) "lvl l = lv - 2" "lvl r = lv - 1"
    | (both_down) "lvl l = lv - 2" "lvl r = lv" "rlvl r = lv - 1"
    by (auto simp: removal_site_def)
  then show ?thesis
  proof cases
    case keep
    have "aa_inv (Node d lv l r)"
      using keep il ir by (simp add: aa_inv_Node)
    then show ?thesis by (simp add: rebalance_aa_inv)
  next
    case right_down
    with nr have "0 < lv - 1" by simp
    with right_down obtain ld ll lr where l: "l = Node ld (lv - 1) ll lr"
      by (cases l) auto
    from il l have ill: "aa_inv ll" and ilr: "aa_inv lr" and lll: "lvl ll = lv - 2"
      and lr: "lvl lr = lv - 2 \<or> lvl lr = lv - 1 \<and> rlvl lr = lv - 2"
      by (auto simp: aa_inv_Node)
    from lr show ?thesis
    proof
      assume a: "lvl lr = lv - 2"
      then have "rebalance (Node d lv l r) = Node ld (lv - 1) ll (Node d (lv - 1) lr r)"
        unfolding l using ir right_down ilr by (simp add: rebalance_right_down_1)
      then show ?thesis using a right_down ill ilr ir lll by (simp add: aa_inv_Node)
    next
      assume a: "lvl lr = lv - 1 \<and> rlvl lr = lv - 2"
      with \<open>0 < lv - 1\<close> obtain lrd lrl lrr where lr': "lr = Node lrd (lv - 1) lrl lrr"
        by (cases lr) auto
      from a lr' have lrr: "lvl lrr = lv - 2" by simp
      from ilr lr' have i3: "aa_inv lrl" "aa_inv lrr" "lvl lrl = lv - 2"
        by (auto simp: aa_inv_Node)
      have "rebalance (Node d lv l r) =
            Node lrd lv (Node ld (lv - 1) ll lrl) (Node d (lv - 1) lrr r)"
        unfolding l lr' using ir right_down lrr by (simp add: rebalance_right_down_2)
      then show ?thesis using right_down ill ir lll lrr i3 by (simp add: aa_inv_Node)
    qed
  next
    case left_down
    with nl have lv2: "2 \<le> lv" by simp
    then have "0 < lv - 1" by simp
    with left_down obtain rd rl rr where r: "r = Node rd (lv - 1) rl rr"
      by (cases r) auto
    from ir r have irl: "aa_inv rl" and irr: "aa_inv rr" and lrl: "lvl rl = lv - 2"
      and rr: "lvl rr = lv - 2 \<or> lvl rr = lv - 1 \<and> rlvl rr = lv - 2"
      by (auto simp: aa_inv_Node)
    from rr show ?thesis
    proof
      assume a: "lvl rr = lv - 2"
      then have "rebalance (Node d lv l r) = Node d (lv - 1) l r"
        using ir left_down r by (simp add: rebalance_left_down_1)
      then show ?thesis using a left_down il ir r by (simp add: aa_inv_Node)
    next
      assume a: "lvl rr = lv - 1 \<and> rlvl rr = lv - 2"
      then have "rebalance (Node d lv l r) = Node rd lv (Node d (lv - 1) l rl) rr"
        unfolding r using irr lv2 left_down lrl by (simp add: rebalance_left_down_2)
      then show ?thesis using a left_down il irl irr lrl by (simp add: aa_inv_Node)
    qed
  next
    case both_down
    with nl have lv2: "2 \<le> lv" by simp
    then have p1: "0 < lv - 1" and p0: "0 < lv" by simp_all
    from both_down p0 obtain rd rl rr where r: "r = Node rd lv rl rr"
      by (cases r) auto
    from ir r both_down have irl: "aa_inv rl" and irr: "aa_inv rr" and lrl: "lvl rl = lv - 1"
      and lrr: "lvl rr = lv - 1"
      by (auto simp: aa_inv_Node)
    from lrl p1 obtain rld rll rlr where rl: "rl = Node rld (lv - 1) rll rlr"
      by (cases rl) auto
    from irl rl have i2: "aa_inv rll" "aa_inv rlr" "lvl rll = lv - 2"
      and rlr: "lvl rlr = lv - 2 \<or> lvl rlr = lv - 1 \<and> rlvl rlr = lv - 2"
      by (auto simp: aa_inv_Node)
    from lrr p1 obtain rrd rrl rrr where rr: "rr = Node rrd (lv - 1) rrl rrr"
      by (cases rr) auto
    from irr rr have i3: "aa_inv rrl" "aa_inv rrr" "lvl rrl = lv - 2"
      and rrr: "lvl rrr = lv - 2 \<or> lvl rrr = lv - 1 \<and> rlvl rrr = lv - 2"
      by (auto simp: aa_inv_Node)
    from rlr show ?thesis
    proof
      assume a: "lvl rlr = lv - 2"
      from rrr show ?thesis
      proof
        assume b: "lvl rrr = lv - 2"
        then have "rebalance (Node d lv l r) =
            Node rld lv (Node d (lv - 1) l rll) (Node rd (lv - 1) rlr rr)"
          unfolding r rl using irr lv2 both_down lrr a rr
          by (simp add: rebalance_both_down_1)
        then show ?thesis using a b both_down il irr i2 lrr rr by (simp add: aa_inv_Node)
      next
        assume b: "lvl rrr = lv - 1 \<and> rlvl rrr = lv - 2"
        then have "rebalance (Node d lv l r) =
            Node rld lv (Node d (lv - 1) l rll) (Node rrd lv (Node rd (lv - 1) rlr rrl) rrr)"
          unfolding r rl rr using lv2 both_down a by (simp add: rebalance_both_down_2)
        then show ?thesis using a b both_down il i2 i3 by (simp add: aa_inv_Node)
      qed
    next
      assume a: "lvl rlr = lv - 1 \<and> rlvl rlr = lv - 2"
      with p1 obtain rlrd rlrl rlrr where rlr': "rlr = Node rlrd (lv - 1) rlrl rlrr"
        by (cases rlr) auto
      from a rlr' have l4: "lvl rlrr = lv - 2" by simp
      from i2 rlr' have i4: "aa_inv rlrl" "aa_inv rlrr" "lvl rlrl = lv - 2"
        by (auto simp: aa_inv_Node)
      have "rebalance (Node d lv l r) =
          Node rld lv (Node d (lv - 1) l rll) (Node rd lv (Node rlrd (lv - 1) rlrl rlrr) rr)"
        unfolding r rl rlr' using lv2 both_down lrr l4 by (simp add: rebalance_both_down_3)
      then show ?thesis using both_down il irr i2 i4 l4 lrr rr by (simp add: aa_inv_Node)
    qed
  qed
qed

lemma site_left:
  assumes "aa_inv (Node d lv l r)" "removed l l'"
  shows "removal_site (Node d' lv l' r)"
proof -
  from assms(1) have a: "aa_inv r" "lvl l = lv - 1"
    "lvl r = lv - 1 \<or> lvl r = lv \<and> rlvl r = lv - 1"
    by (simp_all add: aa_inv_Node)
  from assms(2) have b: "aa_inv l'" "lvl l' = lvl l \<or> lvl l' = lvl l - 1"
    by (simp_all add: removed_def)
  from a b show ?thesis unfolding removal_site_Node by auto
qed

lemma site_right:
  assumes "aa_inv (Node d lv l r)" "removed r r'"
  shows "removal_site (Node d' lv l r')"
proof -
  from assms(1) have a: "aa_inv l" "lvl l = lv - 1"
    "lvl r = lv - 1 \<or> lvl r = lv \<and> rlvl r = lv - 1"
    by (simp_all add: aa_inv_Node)
  from assms(2) have b: "aa_inv r'" "lvl r' = lvl r \<or> lvl r' = lvl r - 1"
    "lvl r' = lvl r \<Longrightarrow> rlvl r < lvl r \<Longrightarrow> rlvl r' < lvl r'"
    by (simp_all add: removed_def single_def)
  have c: "lvl r' - 1 \<le> rlvl r'"
    using b(1) by (cases r') (auto simp: aa_inv_Node)
  from a b c show ?thesis unfolding removal_site_Node by auto
qed

lemma removed_step:
  assumes "aa_inv (Node d lv l r)" "removal_site (Node d' lv l' r')" "lvl r' \<le> lvl r"
  shows "removed (Node d lv l r) (rebalance (Node d' lv l' r'))"
proof -
  from assms(1) have "lvl r \<le> lv" by (auto simp: aa_inv_Node)
  then show ?thesis
    using rebalance_site [OF assms(2)] assms(3) by (simp add: removed_def)
qed

lemma removed_lvl_le: "removed t t' \<Longrightarrow> lvl t' \<le> lvl t"
  by (auto simp: removed_def)

section \<open>Removal keeps the AA invariant\<close>

lemma lvl_leftmost_clear [simp]: "lvl (leftmost_clear t) = lvl t"
  by (induction t rule: leftmost_clear.induct) simp_all

lemma lvl_rightmost_clear [simp]: "lvl (rightmost_clear t) = lvl t"
  by (induction t rule: rightmost_clear.induct) simp_all

lemma rlvl_leftmost_clear [simp]: "rlvl (leftmost_clear t) = rlvl t"
  by (induction t rule: leftmost_clear.induct) simp_all

lemma rlvl_rightmost_clear [simp]: "rlvl (rightmost_clear t) = rlvl t"
  by (induction t rule: rightmost_clear.induct) simp_all

lemma aa_inv_leftmost_clear [simp]: "aa_inv (leftmost_clear t) = aa_inv t"
proof (induction t rule: leftmost_clear.induct)
  case (3 d lv ld llv ll lr r)
  have "aa_inv (Node d lv (leftmost_clear (Node ld llv ll lr)) r) =
        aa_inv (Node d lv (Node ld llv ll lr) r)"
    unfolding aa_inv_Node [of d lv] using 3 by simp
  then show ?case by simp
qed (simp_all add: aa_inv_Node)

lemma aa_inv_rightmost_clear [simp]: "aa_inv (rightmost_clear t) = aa_inv t"
proof (induction t rule: rightmost_clear.induct)
  case (3 d lv l rd rlv rl rr)
  have "aa_inv (Node d lv l (rightmost_clear (Node rd rlv rl rr))) =
        aa_inv (Node d lv l (Node rd rlv rl rr))"
    unfolding aa_inv_Node [of d lv l] using 3 by simp
  then show ?case by simp
qed (simp_all add: aa_inv_Node)

lemma single_leftmost_clear [simp]: "single (leftmost_clear t) = single t"
  by (simp add: single_def)

lemma single_rightmost_clear [simp]: "single (rightmost_clear t) = single t"
  by (simp add: single_def)

lemma remove_removed:
  "aa_inv t \<Longrightarrow> removed t (fst (onion_dict_node_remove od t k))"
proof (induction od t k rule: onion_dict_node_remove.induct)
  case (1 od k)
  show ?case by (simp add: removed_def)
next
  case (2 od d lv l r k)
  let ?cmp = "strcmp (bytes k) (bytes (key d))"
  from "2.prems" have il: "aa_inv l" and ir: "aa_inv r" by (simp_all add: aa_inv_Node)
  consider (lt) "?cmp < 0" | (gt) "0 < ?cmp"
    | (leaf) "?cmp = 0" "l = Null" "r = Null"
    | (succ) "?cmp = 0" "l = Null" "r \<noteq> Null"
    | (pred) "?cmp = 0" "l \<noteq> Null"
    by linarith
  then show ?case
  proof cases
    case lt
    then have "removed l (fst (onion_dict_node_remove od l k))"
      using "2.IH"(1) [OF refl] il by simp
    then show ?thesis
      using lt removed_step [OF "2.prems" site_left [OF "2.prems"]]
      by (simp add: split_beta)
  next
    case gt
    then have rm: "removed r (fst (onion_dict_node_remove od r k))"
      using "2.IH"(2) [OF refl] ir by simp
    show ?thesis
      using gt removed_step [OF "2.prems" site_right [OF "2.prems" rm] removed_lvl_le [OF rm]]
      by (simp add: split_beta)
  next
    case leaf
    with "2.prems" show ?thesis by (simp add: removed_def aa_inv_Node)
  next
    case succ
    let ?td = "leftmost_data r"
    have "removed (leftmost_clear r) (fst (onion_dict_node_remove od (leftmost_clear r) (key ?td)))"
      using "2.IH"(3) [OF refl _ _ refl _ _ refl] succ ir by simp
    then have rm: "removed r (fst (onion_dict_node_remove od (leftmost_clear r) (key ?td)))"
      by (simp add: removed_def)
    show ?thesis
      using succ removed_step [OF "2.prems" site_right [OF "2.prems" rm] removed_lvl_le [OF rm]]
      by (simp add: split_beta Let_def)
  next
    case pred
    let ?td = "rightmost_data l"
    have "removed (rightmost_clear l) (fst (onion_dict_node_remove od (rightmost_clear l) (key ?td)))"
      using "2.IH"(4) [OF refl _ _ refl _ _ refl] pred il by simp
    then have rm: "removed l (fst (onion_dict_node_remove od (rightmost_clear l) (key ?td)))"
      by (simp add: removed_def)
    show ?thesis
      using pred removed_step [OF "2.prems" site_left [OF "2.prems" rm]]
      by (simp add: split_beta Let_def)
  qed
qed

section \<open>Insertion keeps the AA invariant\<close>

lemma added_left:
  assumes inv: "aa_inv (Node d lv l r)" and a: "added l l'"
  shows "added (Node d lv l r) (split (skew (Node d lv l' r)))"
proof -
  from inv have il: "aa_inv l" and ir: "aa_inv r" and ll: "lvl l = lv - 1"
    and lr: "lvl r = lv - 1 \<or> lvl r = lv \<and> rlvl r = lv - 1"
    by (simp_all add: aa_inv_Node)
  from a have il': "aa_inv l'" by (simp add: added_def)
  from a consider (same) "lvl l' = lvl l" | (up) "lvl l' = lvl l + 1" "single l'"
    by (auto simp: added_def)
  then show ?thesis
  proof cases
    case same
    then have "aa_inv (Node d lv l' r)"
      using il' ir ll lr by (simp add: aa_inv_Node)
    then show ?thesis by (simp add: skew_aa_inv split_aa_inv added_def)
  next
    case up
    have "0 \<le> lvl l" using il by (rule aa_inv_lvl_nonneg)
    with up ll obtain ld l1 l2 where l': "l' = Node ld lv l1 l2"
      by (cases l') auto
    from il' l' up have i: "aa_inv l1" "aa_inv l2" "lvl l1 = lv - 1" "lvl l2 = lv - 1"
      by (auto simp: aa_inv_Node)
    have sk: "skew (Node d lv l' r) = Node ld lv l1 (Node d lv l2 r)"
      by (simp add: l')
    from lr show ?thesis
    proof
      assume r1: "lvl r = lv - 1"
      then have "split (skew (Node d lv l' r)) = Node ld lv l1 (Node d lv l2 r)"
        unfolding sk by (simp add: split_noop)
      then show ?thesis using r1 i ir by (simp add: added_def aa_inv_Node)
    next
      assume r2: "lvl r = lv \<and> rlvl r = lv - 1"
      with \<open>0 \<le> lvl l\<close> ll have "r \<noteq> Null" by (cases r) auto
      with r2 have "split (skew (Node d lv l' r)) = Node d (lv + 1) (Node ld lv l1 l2) r"
        unfolding sk by (simp add: split_apply)
      then show ?thesis using r2 i ir by (simp add: added_def aa_inv_Node)
    qed
  qed
qed

lemma added_right:
  assumes inv: "aa_inv (Node d lv l r)" and a: "added r r'"
  shows "added (Node d lv l r) (split (skew (Node d lv l r')))"
proof -
  from inv have il: "aa_inv l" and ir: "aa_inv r" and ll: "lvl l = lv - 1"
    and lr: "lvl r = lv - 1 \<or> lvl r = lv \<and> rlvl r = lv - 1"
    by (simp_all add: aa_inv_Node)
  have n: "0 \<le> lvl l" using il by (rule aa_inv_lvl_nonneg)
  from a have ir': "aa_inv r'" by (simp add: added_def)
  have sk: "skew (Node d lv l r') = Node d lv l r'"
    using ll by (simp add: skew_noop)
  have c: "lvl r' - 1 \<le> rlvl r'" "rlvl r' \<le> lvl r'"
    using ir' by (cases r'; auto simp: aa_inv_Node)+
  from lr show ?thesis
  proof
    assume r1: "lvl r = lv - 1"
    with a have "lvl r' = lv - 1 \<or> lvl r' = lv \<and> rlvl r' = lv - 1"
      using c by (auto simp: added_def single_def)
    then have "aa_inv (Node d lv l r')"
      using il ir' ll by (simp add: aa_inv_Node)
    then show ?thesis using r1 by (simp add: sk split_aa_inv added_def)
  next
    assume r2: "lvl r = lv \<and> rlvl r = lv - 1"
    with a have l': "lvl r' = lv" by (simp add: added_def single_def)
    with n ll obtain rd r1 r2' where r': "r' = Node rd lv r1 r2'"
      by (cases r') auto
    from ir' r' have i: "aa_inv r1" "aa_inv r2'" "lvl r1 = lv - 1"
      and h: "lvl r2' = lv - 1 \<or> lvl r2' = lv"
      by (auto simp: aa_inv_Node)
    from h show ?thesis
    proof
      assume "lvl r2' = lv - 1"
      then have "aa_inv (Node d lv l r')"
        using il ir' ll r' by (simp add: aa_inv_Node)
      then show ?thesis using r2 by (simp add: sk split_aa_inv added_def)
    next
      assume h2: "lvl r2' = lv"
      with n ll have "r2' \<noteq> Null" by (cases r2') auto
      with h2 have "split (Node d lv l r') = Node rd (lv + 1) (Node d lv l r1) r2'"
        unfolding r' by (simp add: split_apply)
      then have "split (skew (Node d lv l r')) = Node rd (lv + 1) (Node d lv l r1) r2'"
        by (simp only: sk)
      then show ?thesis using r2 h2 i il ll by (simp add: added_def aa_inv_Node)
    qed
  qed
qed

lemma add_added:
  "aa_inv t \<Longrightarrow> added t (onion_dict_node_add t (Node dn 1 Null Null))"
proof (induction t)
  case Null
  show ?case by (simp add: added_def aa_inv_Node)
next
  case (Node d lv l r)
  from Node.prems have il: "aa_inv l" and ir: "aa_inv r" by (simp_all add: aa_inv_Node)
  show ?case
    using added_left [OF Node.prems Node.IH(1) [OF il]]
      added_right [OF Node.prems Node.IH(2) [OF ir]]
    by (simp add: Let_def)
qed

section \<open>Keys under the operations\<close>

lemma keys_simps [simp]:
  "keys Null = []"
  "keys (Node d lv l r) = keys l @ ck d # keys r"
  by (simp_all add: keys_def)

lemma bst_keys: "bst t \<longleftrightarrow> sorted (keys t)"
  by (simp add: bst_sorted keys_def)

lemma inorder_clamp_level [simp]: "inorder (clamp_level sb t) = inorder t"
  by (cases t) simp_all

lemma inorder_decrease_level [simp]:
  "inorder (decrease_level (Node d lv l r)) = inorder (Node d lv l r)"
  by (simp add: Let_def)

lemma inorder_skew_right [simp]: "inorder (skew_right t) = inorder t"
  by (cases t) (simp_all add: inorder_skew)

lemma inorder_skew_right_right [simp]: "inorder (skew_right_right t) = inorder t"
  by (cases t rule: skew_right_right.cases) (simp_all add: inorder_skew)

lemma inorder_split_right [simp]: "inorder (split_right t) = inorder t"
  by (cases t) (simp_all add: inorder_split)

lemma inorder_rebalance [simp]:
  "inorder (rebalance (Node d lv l r)) = inorder (Node d lv l r)"
  unfolding rebalance_def Let_def
  by (simp only: inorder_split_right inorder_split inorder_skew_right_right inorder_skew_right
      inorder_skew inorder_decrease_level)

lemma keys_rebalance [simp]: "keys (rebalance (Node d lv l r)) = keys l @ ck d # keys r"
  by (simp add: keys_def)

lemma inorder_leftmost:
  "t \<noteq> Null \<Longrightarrow>
   \<exists>rest. inorder t = leftmost_data t # rest \<and>
          inorder (leftmost_clear t) = (leftmost_data t)\<lparr>flags := 0\<rparr> # rest"
  by (induction t rule: leftmost_clear.induct) auto

lemma inorder_rightmost:
  "t \<noteq> Null \<Longrightarrow>
   \<exists>init. inorder t = init @ [rightmost_data t] \<and>
          inorder (rightmost_clear t) = init @ [(rightmost_data t)\<lparr>flags := 0\<rparr>]"
proof (induction t rule: rightmost_clear.induct)
  case (3 d lv l rd rlv rl rr)
  then obtain init where
    "inorder (Node rd rlv rl rr) = init @ [rightmost_data (Node rd rlv rl rr)]"
    "inorder (rightmost_clear (Node rd rlv rl rr)) =
       init @ [(rightmost_data (Node rd rlv rl rr))\<lparr>flags := 0\<rparr>]"
    by auto
  then have
    "inorder (Node d lv l (Node rd rlv rl rr)) =
       (inorder l @ d # init) @ [rightmost_data (Node d lv l (Node rd rlv rl rr))] \<and>
     inorder (rightmost_clear (Node d lv l (Node rd rlv rl rr))) =
       (inorder l @ d # init) @ [(rightmost_data (Node d lv l (Node rd rlv rl rr)))\<lparr>flags := 0\<rparr>]"
    by simp
  then show ?case by blast
qed auto

lemma ck_flags [simp]: "ck (d\<lparr>flags := f\<rparr>) = ck d"
  by (simp add: ck_def)

lemma keys_leftmost_clear [simp]: "keys (leftmost_clear t) = keys t"
proof (cases "t = Null")
  case False
  then show ?thesis
    using inorder_leftmost [of t] by (auto simp: keys_def)
qed simp

lemma keys_rightmost_clear [simp]: "keys (rightmost_clear t) = keys t"
proof (cases "t = Null")
  case False
  then show ?thesis
    using inorder_rightmost [of t] by (auto simp: keys_def)
qed simp

lemma keys_leftmost_data: "t \<noteq> Null \<Longrightarrow> \<exists>rest. keys t = ck (leftmost_data t) # rest"
  using inorder_leftmost [of t] by (auto simp: keys_def)

lemma keys_rightmost_data: "t \<noteq> Null \<Longrightarrow> \<exists>init. keys t = init @ [ck (rightmost_data t)]"
  using inorder_rightmost [of t] by (auto simp: keys_def)

section \<open>Searching\<close>

lemma cs_takeWhile [simp]: "cs (takeWhile (\<lambda>c. c \<noteq> NUL) s) = cs s"
  by (simp add: cs_def)

lemma find_node_found:
  "onion_dict_find_node t k \<noteq> Null \<Longrightarrow>
   data (onion_dict_find_node t k) \<in> set (inorder t) \<and>
   ck (data (onion_dict_find_node t k)) = cs (bytes k)"
proof (induction t)
  case Null
  then show ?case by simp
next
  case (Node d lv l r)
  let ?c = "strcmp (bytes k) (bytes (key d))"
  have z: "to_schar ?c = 0 \<longleftrightarrow> ?c = 0"
    using strcmp_bound [of "bytes k" "bytes (key d)"] by (simp add: to_schar_zero)
  show ?case
    using Node z by (auto simp: Let_def ck_def strcmp_eq split: if_splits)
qed

lemma strcmp_ascii: "ascii a \<Longrightarrow> ascii b \<Longrightarrow> - 127 \<le> strcmp a b \<and> strcmp a b \<le> 127"
proof (induction a b rule: strcmp.induct)
  case (2 b bs)
  then show ?case using byte_nonneg [of b] by (simp add: ascii_def)
next
  case (3 a as)
  then show ?case using byte_nonneg [of a] by (simp add: ascii_def)
next
  case (4 a as b bs)
  then show ?case
    using byte_nonneg [of a] byte_nonneg [of b] by (auto simp: ascii_def)
qed simp

lemma find_node_present:
  assumes "sorted (keys t)" "cs (bytes k) \<in> set (keys t)" "ascii (bytes k)"
    "list_all (\<lambda>d. ascii (bytes (key d))) (inorder t)"
  shows "onion_dict_find_node t k \<noteq> Null"
  using assms
proof (induction t)
  case Null
  then show ?case by simp
next
  case (Node d lv l r)
  let ?c = "strcmp (bytes k) (bytes (key d))"
  have "ascii (bytes (key d))" using Node.prems(4) by simp
  then have c: "to_schar ?c = ?c"
    using strcmp_ascii [OF Node.prems(3), of "bytes (key d)"] by (simp add: to_schar_id)
  from Node.prems(1) have s: "sorted (keys l)" "sorted (keys r)"
    "\<forall>x\<in>set (keys l). x \<le> ck d" "\<forall>x\<in>set (keys r). ck d \<le> x"
    by (auto simp: sorted_append)
  consider (eq) "?c = 0" | (lt) "?c < 0" | (gt) "0 < ?c" by linarith
  then show ?case
  proof cases
    case eq
    then show ?thesis using c by simp
  next
    case lt
    then have "cs (bytes k) < ck d" by (simp add: strcmp_lt ck_def)
    with s Node.prems(2) have "cs (bytes k) \<in> set (keys l)" by auto
    then show ?thesis using lt c Node.IH(1) s Node.prems(3,4) by (simp add: Let_def)
  next
    case gt
    then have "ck d < cs (bytes k)" by (simp add: strcmp_gt ck_def)
    with s Node.prems(2) have "cs (bytes k) \<in> set (keys r)" by auto
    then show ?thesis using gt c Node.IH(2) s Node.prems(3,4) by (simp add: Let_def)
  qed
qed

section \<open>Insertion and removal keep the order of keys\<close>

lemma sorted_mid:
  "sorted (xs @ a # ys) \<longleftrightarrow>
     sorted xs \<and> sorted ys \<and> (\<forall>x\<in>set xs. x \<le> a) \<and> (\<forall>y\<in>set ys. a \<le> y)"
  for a :: "'a::linorder"
proof -
  have "\<forall>x\<in>set xs. \<forall>y\<in>set ys. x \<le> y"
    if "\<forall>x\<in>set xs. x \<le> a" "\<forall>y\<in>set ys. a \<le> y"
    using that order_trans by blast
  then show ?thesis by (auto simp: sorted_append)
qed

lemma add_keys:
  "sorted (keys t) \<Longrightarrow>
   sorted (keys (onion_dict_node_add t (Node dn 1 Null Null))) \<and>
   set (keys (onion_dict_node_add t (Node dn 1 Null Null))) = insert (ck dn) (set (keys t))"
proof (induction t)
  case Null
  show ?case by simp
next
  case (Node d lv l r)
  let ?n = "Node dn 1 Null Null"
  from Node.prems have s: "sorted (keys l)" "sorted (keys r)"
    "\<forall>x\<in>set (keys l). x \<le> ck d" "\<forall>x\<in>set (keys r). ck d \<le> x"
    by (auto simp: sorted_mid)
  have k: "keys (split (skew u)) = keys u" for u
    by (simp add: keys_def inorder_split inorder_skew)
  show ?case
  proof (cases "strcmp (bytes (key dn)) (bytes (key d)) < 0")
    case True
    then have lt: "ck dn < ck d" by (simp add: strcmp_lt ck_def)
    have e: "keys (onion_dict_node_add (Node d lv l r) ?n) =
             keys (onion_dict_node_add l ?n) @ ck d # keys r"
      using True by (simp add: k)
    from Node.IH(1) [OF s(1)] s lt show ?thesis
      unfolding e by (auto simp: sorted_mid)
  next
    case False
    then have ge: "ck d \<le> ck dn" by (simp add: strcmp_lt ck_def)
    have e: "keys (onion_dict_node_add (Node d lv l r) ?n) =
             keys l @ ck d # keys (onion_dict_node_add r ?n)"
      using False by (simp add: k)
    from Node.IH(2) [OF s(2)] s ge show ?thesis
      unfolding e by (auto simp: sorted_mid)
  qed
qed

lemma remove_lt:
  "strcmp (bytes k) (bytes (key d)) < 0 \<Longrightarrow>
   onion_dict_node_remove od (Node d lv l r) k =
     (rebalance (Node d lv (fst (onion_dict_node_remove od l k)) r),
      snd (onion_dict_node_remove od l k))"
  by (simp add: split_beta)

lemma remove_gt:
  "0 < strcmp (bytes k) (bytes (key d)) \<Longrightarrow>
   onion_dict_node_remove od (Node d lv l r) k =
     (rebalance (Node d lv l (fst (onion_dict_node_remove od r k))),
      snd (onion_dict_node_remove od r k))"
  by (simp add: split_beta)

lemma remove_leaf:
  "strcmp (bytes k) (bytes (key d)) = 0 \<Longrightarrow>
   onion_dict_node_remove od (Node d lv Null Null) k = (Null, onion_dict_node_data_free od d)"
  by simp

lemma remove_succ:
  "strcmp (bytes k) (bytes (key d)) = 0 \<Longrightarrow> r \<noteq> Null \<Longrightarrow>
   onion_dict_node_remove od (Node d lv Null r) k =
     (rebalance (Node (leftmost_data r) lv Null
        (fst (onion_dict_node_remove od (leftmost_clear r) (key (leftmost_data r))))),
      onion_dict_node_data_free od d @
      snd (onion_dict_node_remove od (leftmost_clear r) (key (leftmost_data r))))"
  by (simp add: split_beta Let_def)

lemma remove_pred:
  "strcmp (bytes k) (bytes (key d)) = 0 \<Longrightarrow> l \<noteq> Null \<Longrightarrow>
   onion_dict_node_remove od (Node d lv l r) k =
     (rebalance (Node (rightmost_data l) lv
        (fst (onion_dict_node_remove od (rightmost_clear l) (key (rightmost_data l)))) r),
      onion_dict_node_data_free od d @
      snd (onion_dict_node_remove od (rightmost_clear l) (key (rightmost_data l))))"
  by (simp add: split_beta Let_def)

declare onion_dict_node_remove.simps(2) [simp del]

lemma remove_keys:
  "sorted (keys t) \<Longrightarrow>
   sorted (keys (fst (onion_dict_node_remove od t k))) \<and>
   mset (keys (fst (onion_dict_node_remove od t k))) = mset (keys t) - {#cs (bytes k)#}"
proof (induction od t k rule: onion_dict_node_remove.induct)
  case (1 od k)
  show ?case by simp
next
  case (2 od d lv l r k)
  let ?cmp = "strcmp (bytes k) (bytes (key d))"
  let ?k = "cs (bytes k)"
  from "2.prems" have s: "sorted (keys l)" "sorted (keys r)"
    "\<forall>x\<in>set (keys l). x \<le> ck d" "\<forall>x\<in>set (keys r). ck d \<le> x"
    by (auto simp: sorted_mid)
  consider (lt) "?cmp < 0" | (gt) "0 < ?cmp"
    | (leaf) "?cmp = 0" "l = Null" "r = Null"
    | (succ) "?cmp = 0" "l = Null" "r \<noteq> Null"
    | (pred) "?cmp = 0" "l \<noteq> Null"
    by linarith
  then show ?case
  proof cases
    case lt
    let ?l' = "fst (onion_dict_node_remove od l k)"
    from lt have klt: "?k < ck d" by (simp add: strcmp_lt ck_def)
    have ih: "sorted (keys ?l')" "mset (keys ?l') = mset (keys l) - {#?k#}"
      using "2.IH"(1) [OF refl lt s(1)] by simp_all
    have e: "keys (fst (onion_dict_node_remove od (Node d lv l r) k)) = keys ?l' @ ck d # keys r"
      using lt by (simp add: remove_lt)
    have sub: "set (keys ?l') \<subseteq> set (keys l)"
      using ih(2) by (metis in_diffD set_mset_mset subsetI)
    have "?k \<notin> set (keys r)" using klt s(4) by auto
    then have m: "mset (keys ?l' @ ck d # keys r) = mset (keys l @ ck d # keys r) - {#?k#}"
      using ih(2) klt
      by (cases "?k \<in> set (keys l)") (auto simp: diff_single_trivial)
    show ?thesis unfolding e using ih(1) s sub m by (auto simp: sorted_mid)
  next
    case gt
    let ?r' = "fst (onion_dict_node_remove od r k)"
    from gt have kgt: "ck d < ?k" by (simp add: strcmp_gt ck_def)
    have ng: "\<not> ?cmp < 0" using gt by simp
    have ih: "sorted (keys ?r')" "mset (keys ?r') = mset (keys r) - {#?k#}"
      using "2.IH"(2) [OF refl ng gt s(2)] by simp_all
    have e: "keys (fst (onion_dict_node_remove od (Node d lv l r) k)) = keys l @ ck d # keys ?r'"
      using gt by (simp add: remove_gt)
    have sub: "set (keys ?r') \<subseteq> set (keys r)"
      using ih(2) by (metis in_diffD set_mset_mset subsetI)
    have "?k \<notin> set (keys l)" using kgt s(3) by auto
    then have m: "mset (keys l @ ck d # keys ?r') = mset (keys l @ ck d # keys r) - {#?k#}"
      using ih(2) kgt
      by (cases "?k \<in> set (keys r)") (auto simp: diff_single_trivial)
    show ?thesis unfolding e using ih(1) s sub m by (auto simp: sorted_mid)
  next
    case leaf
    then have "cs (bytes k) = ck d" by (simp add: strcmp_eq ck_def)
    then show ?thesis using leaf by (simp add: remove_leaf)
  next
    case succ
    let ?td = "leftmost_data r"
    let ?r' = "fst (onion_dict_node_remove od (leftmost_clear r) (key ?td))"
    from succ have keq: "?k = ck d" by (simp add: strcmp_eq ck_def)
    have n1: "\<not> ?cmp < 0" "\<not> 0 < ?cmp" "\<not> (l = Null \<and> r = Null)" using succ by simp_all
    have ih: "sorted (keys ?r')" "mset (keys ?r') = mset (keys r) - {#ck ?td#}"
      using "2.IH"(3) [OF refl n1(1,2) refl n1(3) succ(2) refl] s(2) by (simp_all add: ck_def)
    have e: "keys (fst (onion_dict_node_remove od (Node d lv l r) k)) = ck ?td # keys ?r'"
      using succ by (simp add: remove_succ)
    from keys_leftmost_data [OF succ(3)] obtain rest where rest: "keys r = ck ?td # rest"
      by blast
    have sub: "set (keys ?r') \<subseteq> set (keys r)"
      using ih(2) by (metis in_diffD set_mset_mset subsetI)
    have "\<forall>x\<in>set (keys r). ck ?td \<le> x" using s(2) rest by auto
    with sub have "\<forall>x\<in>set (keys ?r'). ck ?td \<le> x" by blast
    then show ?thesis unfolding e using ih succ keq rest by simp
  next
    case pred
    let ?td = "rightmost_data l"
    let ?l' = "fst (onion_dict_node_remove od (rightmost_clear l) (key ?td))"
    from pred have keq: "?k = ck d" by (simp add: strcmp_eq ck_def)
    have n1: "\<not> ?cmp < 0" "\<not> 0 < ?cmp" "\<not> (l = Null \<and> r = Null)" using pred by simp_all
    have ih: "sorted (keys ?l')" "mset (keys ?l') = mset (keys l) - {#ck ?td#}"
      using "2.IH"(4) [OF refl n1(1,2) refl n1(3) pred(2) refl] s(1) by (simp_all add: ck_def)
    have e: "keys (fst (onion_dict_node_remove od (Node d lv l r) k)) = keys ?l' @ ck ?td # keys r"
      using pred by (simp add: remove_pred)
    from keys_rightmost_data [OF pred(2)] obtain init where init: "keys l = init @ [ck ?td]"
      by blast
    have sub: "set (keys ?l') \<subseteq> set (keys l)"
      using ih(2) by (metis in_diffD set_mset_mset subsetI)
    have mx: "\<forall>x\<in>set (keys l). x \<le> ck ?td" using s(1) init by (auto simp: sorted_append)
    have td: "ck ?td \<le> ck d" using s(3) init by simp
    have "\<forall>x\<in>set (keys r). ck ?td \<le> x" using td s(4) by auto
    moreover have "\<forall>x\<in>set (keys ?l'). x \<le> ck ?td" using mx sub by blast
    moreover have "mset (keys ?l' @ ck ?td # keys r) = mset (keys l @ ck d # keys r) - {#?k#}"
      using ih(2) init keq by simp
    ultimately show ?thesis unfolding e using ih(1) s(2) by (auto simp: sorted_mid)
  qed
qed

section \<open>The plain operations keep the invariants\<close>

lemma aa_inv_levels: "aa_inv t \<Longrightarrow> aa_levels t"
proof (induction t)
  case Null
  show ?case by simp
next
  case (Node d lv l r)
  from Node.prems have i: "aa_inv l" "aa_inv r" "lvl l = lv - 1"
    "lvl r = lv - 1 \<or> lvl r = lv \<and> rlvl r = lv - 1"
    by (simp_all add: aa_inv_Node)
  have "rlvl r \<le> lvl r" using i(2) by (rule rlvl_le)
  with i Node.IH show ?case
    by (auto split: onion_dict_node.splits)
qed

lemma add_inv:
  "dict_inv dict \<Longrightarrow> dict_inv (onion_dict_add od dict k v fl ka va)"
  using add_keys [of "root dict" "onion_dict_set_node_data od k v fl ka va"]
    add_added [of "root dict" "onion_dict_set_node_data od k v fl ka va"]
  by (simp add: dict_inv_def onion_dict_add_def onion_dict_node_new_def bst_keys added_def)

lemma remove_inv:
  "dict_inv dict \<Longrightarrow> dict_inv (fst (onion_dict_remove od dict k))"
  using remove_keys [of "root dict" od k] remove_removed [of "root dict" od k]
  by (simp add: dict_inv_def onion_dict_remove_def bst_keys removed_def split_beta)

lemma apply_op_inv: "dict_inv dict \<Longrightarrow> dict_inv (apply_op od dict x)"
  by (cases x) (simp_all add: add_inv remove_inv)

text \<open>
  The plain operations keep the order of the key bytes they carry and the AA invariant.
  This is a fact about the program for the runs in which the bytes are those in memory:
  \<open>run_chk_inv\<close> below.
\<close>

lemma foldl_inv: "dict_inv dict \<Longrightarrow> dict_inv (foldl (apply_op od) dict ops)"
  by (induction ops arbitrary: dict) (simp_all add: apply_op_inv)

lemma run_ops_inv: "dict_inv (run_ops od ops)"
  unfolding run_ops_def
  by (rule foldl_inv) (simp add: dict_inv_def onion_dict_new_def)

lemma remove_absent:
  "aa_inv t \<Longrightarrow> list_all (\<lambda>d. strcmp (bytes k) (bytes (key d)) \<noteq> 0) (inorder t) \<Longrightarrow>
   onion_dict_node_remove od t k = (t, [])"
proof (induction t)
  case Null
  show ?case by simp
next
  case (Node d lv l r)
  from Node.prems(1) have i: "aa_inv l" "aa_inv r" by (simp_all add: aa_inv_Node)
  from Node.prems(2) have n: "strcmp (bytes k) (bytes (key d)) \<noteq> 0"
    and a: "list_all (\<lambda>d. strcmp (bytes k) (bytes (key d)) \<noteq> 0) (inorder l)"
      "list_all (\<lambda>d. strcmp (bytes k) (bytes (key d)) \<noteq> 0) (inorder r)"
    by simp_all
  have rb: "rebalance (Node d lv l r) = Node d lv l r"
    using Node.prems(1) by (simp add: rebalance_aa_inv)
  from n consider "strcmp (bytes k) (bytes (key d)) < 0" | "0 < strcmp (bytes k) (bytes (key d))"
    by linarith
  then show ?case
  proof cases
    case 1
    then show ?thesis using Node.IH(1) [OF i(1) a(1)] rb by (simp add: remove_lt)
  next
    case 2
    then show ?thesis using Node.IH(2) [OF i(2) a(2)] rb by (simp add: remove_gt)
  qed
qed

section \<open>Lookup after the operations\<close>



lemma get_found:
  assumes "onion_dict_find_node (root dict) k \<noteq> Null"
  shows "\<exists>d \<in> set (inorder (root dict)). ck d = cs (bytes k) \<and> onion_dict_get dict k = Some (val d)"
  using assms find_node_found [of "root dict" k]
  by (auto simp: onion_dict_get_def Let_def)

section \<open>Traversal and removal sites\<close>

lemma sorted_wrt_kle_bst: "bst t \<longleftrightarrow> sorted_wrt kle (inorder t)"
  by (simp add: bst_sorted sorted_wrt_kle)

lemma remove_calls_at_sites:
  assumes "aa_inv (Node d lv l r)"
  shows "removal_site (Node d' lv (fst (onion_dict_node_remove od l k)) r)"
    and "removal_site (Node d' lv l (fst (onion_dict_node_remove od r k)))"
    and "removal_site (Node d' lv l (fst (onion_dict_node_remove od (leftmost_clear r) k')))"
    and "removal_site (Node d' lv (fst (onion_dict_node_remove od (rightmost_clear l) k')) r)"
proof -
  from assms have i: "aa_inv l" "aa_inv r" by (simp_all add: aa_inv_Node)
  show "removal_site (Node d' lv (fst (onion_dict_node_remove od l k)) r)"
    by (rule site_left [OF assms remove_removed [OF i(1)]])
  show "removal_site (Node d' lv l (fst (onion_dict_node_remove od r k)))"
    by (rule site_right [OF assms remove_removed [OF i(2)]])
  have "removed (leftmost_clear r) (fst (onion_dict_node_remove od (leftmost_clear r) k'))"
    by (rule remove_removed) (simp add: i)
  then have "removed r (fst (onion_dict_node_remove od (leftmost_clear r) k'))"
    by (simp add: removed_def)
  then show "removal_site (Node d' lv l (fst (onion_dict_node_remove od (leftmost_clear r) k')))"
    by (rule site_right [OF assms])
  have "removed (rightmost_clear l) (fst (onion_dict_node_remove od (rightmost_clear l) k'))"
    by (rule remove_removed) (simp add: i)
  then have "removed l (fst (onion_dict_node_remove od (rightmost_clear l) k'))"
    by (simp add: removed_def)
  then show "removal_site (Node d' lv (fst (onion_dict_node_remove od (rightmost_clear l) k')) r)"
    by (rule site_left [OF assms])
qed

section \<open>Owned addresses\<close>

lemma owned_simps [simp]:
  "owned od Null = []"
  "owned od (Node d lv l r) = owned od l @ onion_dict_node_data_free od d @ owned od r"
  by (simp_all add: owned_def)

lemma data_free_cleared [simp]: "onion_dict_node_data_free od (d\<lparr>flags := 0\<rparr>) = []"
  by (simp add: onion_dict_node_data_free_def)

lemma owned_rebalance [simp]:
  "owned od (rebalance (Node d lv l r)) = owned od l @ onion_dict_node_data_free od d @ owned od r"
  by (simp add: owned_def)

lemma owned_leftmost:
  "t \<noteq> Null \<Longrightarrow>
   mset (owned od (leftmost_clear t)) + mset (onion_dict_node_data_free od (leftmost_data t)) =
   mset (owned od t)"
  using inorder_leftmost [of t] by (auto simp: owned_def)

lemma owned_rightmost:
  "t \<noteq> Null \<Longrightarrow>
   mset (owned od (rightmost_clear t)) + mset (onion_dict_node_data_free od (rightmost_data t)) =
   mset (owned od t)"
  using inorder_rightmost [of t] by (auto simp: owned_def)

lemma leftmost_clear_Null [simp]: "leftmost_clear t = Null \<longleftrightarrow> t = Null"
  by (cases t rule: leftmost_clear.cases) simp_all

lemma rightmost_clear_Null [simp]: "rightmost_clear t = Null \<longleftrightarrow> t = Null"
  by (cases t rule: rightmost_clear.cases) simp_all

lemma leftmost_data_left: "l \<noteq> Null \<Longrightarrow> leftmost_data (Node d lv l r) = leftmost_data l"
  by (cases l) simp_all

lemma rightmost_data_right: "r \<noteq> Null \<Longrightarrow> rightmost_data (Node d lv l r) = rightmost_data r"
  by (cases r) simp_all

lemma leftmost_data_clear:
  "t \<noteq> Null \<Longrightarrow> leftmost_data (leftmost_clear t) = (leftmost_data t)\<lparr>flags := 0\<rparr>"
  by (induction t rule: leftmost_clear.induct) (simp_all add: leftmost_data_left)

lemma rightmost_data_clear:
  "t \<noteq> Null \<Longrightarrow> rightmost_data (rightmost_clear t) = (rightmost_data t)\<lparr>flags := 0\<rparr>"
  by (induction t rule: rightmost_clear.induct) (simp_all add: rightmost_data_right)

lemma remove_frees:
  "mset (snd (onion_dict_node_remove od t k)) + mset (owned od (fst (onion_dict_node_remove od t k))) =
   mset (owned od t)"
proof (induction od t k rule: onion_dict_node_remove.induct)
  case (1 od k)
  show ?case by simp
next
  case (2 od d lv l r k)
  let ?cmp = "strcmp (bytes k) (bytes (key d))"
  consider (lt) "?cmp < 0" | (gt) "0 < ?cmp"
    | (leaf) "?cmp = 0" "l = Null" "r = Null"
    | (succ) "?cmp = 0" "l = Null" "r \<noteq> Null"
    | (pred) "?cmp = 0" "l \<noteq> Null"
    by linarith
  then show ?case
  proof cases
    case lt
    from "2.IH"(1) [OF refl lt] show ?thesis
      using lt by (simp add: remove_lt ac_simps)
  next
    case gt
    have ng: "\<not> ?cmp < 0" using gt by simp
    from "2.IH"(2) [OF refl ng gt] show ?thesis
      using gt by (simp add: remove_gt ac_simps)
  next
    case leaf
    then show ?thesis by (simp add: remove_leaf)
  next
    case succ
    have n1: "\<not> ?cmp < 0" "\<not> 0 < ?cmp" "\<not> (l = Null \<and> r = Null)" using succ by simp_all
    from "2.IH"(3) [OF refl n1(1,2) refl n1(3) succ(2) refl] owned_leftmost [OF succ(3), of od]
    show ?thesis using succ by (simp add: remove_succ ac_simps)
  next
    case pred
    have n1: "\<not> ?cmp < 0" "\<not> 0 < ?cmp" "\<not> (l = Null \<and> r = Null)" using pred by simp_all
    from "2.IH"(4) [OF refl n1(1,2) refl n1(3) pred(2) refl] owned_rightmost [OF pred(2), of od]
    show ?thesis using pred by (simp add: remove_pred ac_simps)
  qed
qed

lemma node_free_owned: "t \<noteq> Null \<Longrightarrow> mset (onion_dict_node_free od t) = mset (owned od t)"
  by (induction t) auto

lemma dict_free_owned: "mset (onion_dict_free od dict) = mset (owned od (root dict))"
  by (simp add: onion_dict_free_def node_free_owned)

section \<open>Facts about whole dictionaries\<close>

lemma remove_absent_dict:
  assumes "aa_inv (root dict)" "key_absent k dict"
  shows "onion_dict_remove od dict k = (dict, 1, [])"
  using assms remove_absent [of "root dict" k od]
  by (simp add: onion_dict_remove_def key_absent_def)

lemma get_after_add:
  assumes "bst (root dict)" and "key_absent k dict" and "ascii (bytes k)" and "keys_7bit dict"
  shows "onion_dict_get (onion_dict_add od dict k v fl ka va) k =
           Some (if fl AND OD_DUP_VALUE od = OD_DUP_VALUE od then strdup va v else v)"
proof -
  let ?dn = "onion_dict_set_node_data od k v fl ka va"
  let ?d' = "onion_dict_add od dict k v fl ka va"
  have ckn: "ck ?dn = cs (bytes k)"
    by (simp add: ck_def onion_dict_set_node_data_def strdup_def)
  have asn: "ascii (bytes (key ?dn))"
    using assms(3)
    by (auto simp: onion_dict_set_node_data_def strdup_def ascii_def list_all_iff
        dest: set_takeWhileD)
  have root': "root ?d' = onion_dict_node_add (root dict) (Node ?dn 1 Null Null)"
    by (simp add: onion_dict_add_def onion_dict_node_new_def)
  from inorder_add [of "root dict" "Node ?dn 1 Null Null"] obtain xs ys where
    io: "inorder (root dict) = xs @ ys" "inorder (root ?d') = xs @ ?dn # ys"
    unfolding root' by auto
  have srt: "sorted (keys (root ?d'))" and mem: "cs (bytes k) \<in> set (keys (root ?d'))"
    using add_keys [of "root dict" ?dn] assms(1) ckn unfolding root' by (simp_all add: bst_keys)
  have asc: "list_all (\<lambda>d. ascii (bytes (key d))) (inorder (root ?d'))"
    using assms(4) asn io by (simp add: keys_7bit_def)
  have "onion_dict_find_node (root ?d') k \<noteq> Null"
    by (rule find_node_present [OF srt mem assms(3) asc])
  from get_found [OF this] obtain d where
    d: "d \<in> set (inorder (root ?d'))" "ck d = cs (bytes k)" "onion_dict_get ?d' k = Some (val d)"
    by blast
  have "\<forall>x\<in>set (inorder (root dict)). ck x \<noteq> cs (bytes k)"
    using assms(2) by (auto simp: key_absent_def list_all_iff strcmp_eq ck_def)
  with d(1,2) io have "d = ?dn" by auto
  with d(3) show ?thesis by (simp add: onion_dict_set_node_data_def)
qed


section \<open>The checked operations agree with the plain ones\<close>

lemma strcmp_chk_Done:
  "strcmp_chk fs a b = Done c \<longleftrightarrow>
   addr a \<notin> set fs \<and> addr b \<notin> set fs \<and> c = strcmp (bytes a) (bytes b)"
  by (auto simp: strcmp_chk_def)

lemma strcmp_chk_live:
  "addr a \<notin> set fs \<Longrightarrow> addr b \<notin> set fs \<Longrightarrow>
   strcmp_chk fs a b = Done (strcmp (bytes a) (bytes b))"
  by (simp add: strcmp_chk_def)

lemma free_chk_Done:
  "free_chk fs ps = Done fs' \<longleftrightarrow> distinct ps \<and> set ps \<inter> set fs = {} \<and> fs' = fs @ ps"
  by (auto simp: free_chk_def)

lemma find_node_chk_agree:
  "onion_dict_find_node_chk fs t k = Done n \<Longrightarrow> n = onion_dict_find_node t k"
  by (induction t) (auto simp: strcmp_chk_Done Let_def split: checked.splits if_splits)

lemma find_node_chk_live:
  "list_all (\<lambda>d. addr (key d) \<notin> set fs) (inorder t) \<Longrightarrow> addr k \<notin> set fs \<Longrightarrow>
   onion_dict_find_node_chk fs t k = Done (onion_dict_find_node t k)"
  by (induction t) (simp_all add: strcmp_chk_live Let_def)

lemma get_chk_agree:
  "onion_dict_get_chk fs dict k = Done res \<Longrightarrow> res = onion_dict_get dict k"
  by (auto simp: onion_dict_get_chk_def onion_dict_get_def Let_def
      dest: find_node_chk_agree split: checked.splits)

lemma get_chk_live:
  "keys_live fs dict \<Longrightarrow> addr k \<notin> set fs \<Longrightarrow>
   onion_dict_get_chk fs dict k = Done (onion_dict_get dict k)"
  by (simp add: onion_dict_get_chk_def onion_dict_get_def keys_live_def find_node_chk_live Let_def)

lemma node_add_chk_agree:
  "onion_dict_node_add_chk fs t nnode = Done t' \<Longrightarrow> t' = onion_dict_node_add t nnode"
proof (induction t arbitrary: t')
  case Null
  then show ?case by simp
next
  case (Node d lv l r)
  from Node.prems obtain cmp where
    c: "strcmp_chk fs (key (data nnode)) (key d) = Done cmp"
    by (auto split: checked.splits)
  then have cmp: "cmp = strcmp (bytes (key (data nnode))) (bytes (key d))"
    by (simp add: strcmp_chk_Done)
  show ?case
  proof (cases "cmp < 0")
    case True
    with Node.prems c obtain l' where
      l': "onion_dict_node_add_chk fs l nnode = Done l'" "t' = split (skew (Node d lv l' r))"
      by (auto split: checked.splits)
    from Node.IH(1) [OF l'(1)] l'(2) True cmp show ?thesis by (simp add: Let_def)
  next
    case False
    with Node.prems c obtain r' where
      r': "onion_dict_node_add_chk fs r nnode = Done r'" "t' = split (skew (Node d lv l r'))"
      by (auto split: checked.splits)
    from Node.IH(2) [OF r'(1)] r'(2) False cmp show ?thesis by (simp add: Let_def)
  qed
qed

lemma node_add_chk_live:
  "list_all (\<lambda>d. addr (key d) \<notin> set fs) (inorder t) \<Longrightarrow> addr (key (data nnode)) \<notin> set fs \<Longrightarrow>
   onion_dict_node_add_chk fs t nnode = Done (onion_dict_node_add t nnode)"
  by (induction t) (simp_all add: strcmp_chk_live Let_def)

lemma add_chk_agree:
  "onion_dict_add_chk od (dict, fs) k v fl ka va = Done (dict', fs') \<Longrightarrow>
   dict' = onion_dict_add od dict k v fl ka va \<and> fs' = fs"
  by (auto simp: onion_dict_add_chk_def onion_dict_add_def
      dest: node_add_chk_agree split: checked.splits if_splits)

lemma node_remove_chk_agree:
  "onion_dict_node_remove_chk od fs t k = Done (t', fs') \<Longrightarrow>
   \<exists>ps. fs' = fs @ ps \<and> onion_dict_node_remove od t k = (t', ps)"
proof (induction od fs t k arbitrary: t' fs' rule: onion_dict_node_remove_chk.induct)
  case (1 od fs k)
  then show ?case by simp
next
  case (2 od fs d lv l r k)
  from "2.prems" obtain cmp where
    c: "strcmp_chk fs k (key d) = Done cmp"
    by (auto split: checked.splits)
  then have cmp: "cmp = strcmp (bytes k) (bytes (key d))"
    by (simp add: strcmp_chk_Done)
  consider (lt) "cmp < 0" | (gt) "0 < cmp" | (eq) "cmp = 0" by linarith
  then show ?case
  proof cases
    case lt
    with "2.prems" c obtain l' where
      l': "onion_dict_node_remove_chk od fs l k = Done (l', fs')"
        "t' = rebalance (Node d lv l' r)"
      by (auto split: checked.splits)
    from "2.IH"(1) [OF c lt l'(1)] l'(2) lt cmp show ?thesis
      by (auto simp: remove_lt)
  next
    case gt
    with "2.prems" c obtain r' where
      r': "onion_dict_node_remove_chk od fs r k = Done (r', fs')"
        "t' = rebalance (Node d lv l r')"
      by (auto split: checked.splits)
    from gt have ng: "\<not> cmp < 0" by simp
    from "2.IH"(2) [OF c ng gt r'(1)] r'(2) gt cmp show ?thesis
      by (auto simp: remove_gt)
  next
    case eq
    then have n: "\<not> cmp < 0" "\<not> 0 < cmp" by simp_all
    from eq cmp have z: "strcmp (bytes k) (bytes (key d)) = 0" by simp
    from "2.prems" c eq obtain fs0 where
      f: "free_chk fs (onion_dict_node_data_free od d) = Done fs0"
      by (auto split: checked.splits)
    then have fs0: "fs0 = fs @ onion_dict_node_data_free od d"
      by (simp add: free_chk_Done)
    show ?thesis
    proof (cases "l = Null \<and> r = Null")
      case True
      with "2.prems" c eq f fs0 z show ?thesis by (auto simp: remove_leaf)
    next
      case leafless: False
      show ?thesis
      proof (cases "l = Null")
        case True
        with leafless have r: "r \<noteq> Null" by simp
        from "2.prems" c eq f True r obtain r' where
          r': "onion_dict_node_remove_chk od fs0 (leftmost_clear r) (key (leftmost_data r)) =
                 Done (r', fs')"
            "t' = rebalance (Node (leftmost_data r) lv l r')"
          by (auto simp: Let_def split: checked.splits)
        from "2.IH"(3) [OF c n f leafless True refl r'(1)] obtain ps where
          "fs' = fs0 @ ps"
          "onion_dict_node_remove od (leftmost_clear r) (key (leftmost_data r)) = (r', ps)"
          by blast
        with r'(2) True fs0 show ?thesis by (simp add: remove_succ [OF z r])
      next
        case False
        from "2.prems" c eq f False obtain l' where
          l': "onion_dict_node_remove_chk od fs0 (rightmost_clear l) (key (rightmost_data l)) =
                 Done (l', fs')"
            "t' = rebalance (Node (rightmost_data l) lv l' r)"
          by (auto simp: Let_def split: checked.splits)
        from "2.IH"(4) [OF c n f leafless False refl l'(1)] obtain ps where
          "fs' = fs0 @ ps"
          "onion_dict_node_remove od (rightmost_clear l) (key (rightmost_data l)) = (l', ps)"
          by blast
        with l'(2) fs0 show ?thesis by (simp add: remove_pred [OF z False])
      qed
    qed
  qed
qed

lemma remove_chk_agree:
  "onion_dict_remove_chk od (dict, fs) k = Done (dict', rc, fs') \<Longrightarrow>
   rc = 1 \<and> (\<exists>ps. fs' = fs @ ps \<and> onion_dict_remove od dict k = (dict', 1, ps))"
  by (auto simp: onion_dict_remove_chk_def onion_dict_remove_def
      dest!: node_remove_chk_agree split: checked.splits)

lemma apply_op_chk_agree:
  "apply_op_chk od (dict, fs) x = Done (dict', fs') \<Longrightarrow> dict' = apply_op od dict x"
proof (cases x)
  case (Add k v fl ka va)
  then show "apply_op_chk od (dict, fs) x = Done (dict', fs') \<Longrightarrow> dict' = apply_op od dict x"
    by (auto dest: add_chk_agree)
next
  case (Remove k)
  then show "apply_op_chk od (dict, fs) x = Done (dict', fs') \<Longrightarrow> dict' = apply_op od dict x"
    by (auto dest!: remove_chk_agree split: checked.splits)
qed

lemma run_from_chk_agree:
  "run_from_chk od (dict, fs) ops = Done (dict', fs') \<Longrightarrow> dict' = foldl (apply_op od) dict ops"
proof (induction ops arbitrary: dict fs)
  case Nil
  then show ?case by simp
next
  case (Cons x xs)
  from Cons.prems obtain d1 f1 where
    s: "apply_op_chk od (dict, fs) x = Done (d1, f1)" "run_from_chk od (d1, f1) xs = Done (dict', fs')"
    by (auto split: checked.splits)
  from Cons.IH [OF s(2)] apply_op_chk_agree [OF s(1)] show ?case by simp
qed

lemma run_chk_agree: "run_chk od ops = Done (dict, fs) \<Longrightarrow> dict = run_ops od ops"
  unfolding run_chk_def run_ops_def by (rule run_from_chk_agree)

lemma run_chk_inv: "run_chk od ops = Done (dict, fs) \<Longrightarrow> dict_inv dict"
  using run_chk_agree [of od ops dict fs] run_ops_inv [of od ops] by simp

lemma node_remove_chk_absent:
  "aa_inv t \<Longrightarrow> list_all (\<lambda>d. strcmp (bytes k) (bytes (key d)) \<noteq> 0) (inorder t) \<Longrightarrow>
   list_all (\<lambda>d. addr (key d) \<notin> set fs) (inorder t) \<Longrightarrow> addr k \<notin> set fs \<Longrightarrow>
   onion_dict_node_remove_chk od fs t k = Done (t, fs)"
proof (induction t)
  case Null
  show ?case by simp
next
  case (Node d lv l r)
  from Node.prems(1) have i: "aa_inv l" "aa_inv r" by (simp_all add: aa_inv_Node)
  from Node.prems(2) have n: "strcmp (bytes k) (bytes (key d)) \<noteq> 0"
    and a: "list_all (\<lambda>d. strcmp (bytes k) (bytes (key d)) \<noteq> 0) (inorder l)"
      "list_all (\<lambda>d. strcmp (bytes k) (bytes (key d)) \<noteq> 0) (inorder r)"
    by simp_all
  from Node.prems(3) have v: "addr (key d) \<notin> set fs"
    and b: "list_all (\<lambda>d. addr (key d) \<notin> set fs) (inorder l)"
      "list_all (\<lambda>d. addr (key d) \<notin> set fs) (inorder r)"
    by simp_all
  have c: "strcmp_chk fs k (key d) = Done (strcmp (bytes k) (bytes (key d)))"
    using Node.prems(4) v by (rule strcmp_chk_live)
  have rb: "rebalance (Node d lv l r) = Node d lv l r"
    using Node.prems(1) by (simp add: rebalance_aa_inv)
  from n consider "strcmp (bytes k) (bytes (key d)) < 0" | "0 < strcmp (bytes k) (bytes (key d))"
    by linarith
  then show ?case
  proof cases
    case 1
    then show ?thesis using Node.IH(1) [OF i(1) a(1) b(1) Node.prems(4)] rb c by simp
  next
    case 2
    then show ?thesis using Node.IH(2) [OF i(2) a(2) b(2) Node.prems(4)] rb c by simp
  qed
qed

section \<open>Removal from a tree whose entries share no address\<close>

lemma cells_simps [simp]:
  "cells od Null = []"
  "cells od (Node d lv l r) = cells od l @ cell od d @ cells od r"
  by (simp_all add: cells_def)

lemma cells_rebalance [simp]:
  "cells od (rebalance (Node d lv l r)) = cells od l @ cell od d @ cells od r"
  by (simp add: cells_def)

lemma key_in_cell: "addr (key d) \<in> set (cell od d)"
  by (simp add: cell_def)

lemma data_free_cell: "set (onion_dict_node_data_free od d) \<subseteq> set (cell od d)"
  by (auto simp: onion_dict_node_data_free_def cell_def)

lemma distinct_data_free: "distinct (cell od d) \<Longrightarrow> distinct (onion_dict_node_data_free od d)"
  by (auto simp: onion_dict_node_data_free_def cell_def)

lemma key_in_cells: "e \<in> set (inorder t) \<Longrightarrow> addr (key e) \<in> set (cells od t)"
  using key_in_cell by (fastforce simp: cells_def)

lemma owned_cells: "set (owned od t) \<subseteq> set (cells od t)"
  using data_free_cell by (fastforce simp: cells_def owned_def)

lemma cell_cleared [simp]: "cell od (d\<lparr>flags := 0\<rparr>) = [addr (key d)]"
  by (simp add: cell_def)

lemma cells_leftmost:
  assumes "t \<noteq> Null" and "distinct (cells od t)"
  shows "distinct (cells od (leftmost_clear t))"
    and "set (cells od (leftmost_clear t)) \<subseteq> set (cells od t)"
    and "addr (key (leftmost_data t)) \<in> set (cells od t)"
    and "addr (key (leftmost_data t)) \<notin> set (owned od (leftmost_clear t))"
    and "set (owned od (leftmost_clear t)) \<subseteq> set (owned od t)"
proof -
  from inorder_leftmost [OF assms(1)] obtain rest where
    i: "inorder t = leftmost_data t # rest"
       "inorder (leftmost_clear t) = (leftmost_data t)\<lparr>flags := 0\<rparr> # rest"
    by blast
  have c: "cells od t = cell od (leftmost_data t) @ concat (map (cell od) rest)"
    "cells od (leftmost_clear t) = addr (key (leftmost_data t)) # concat (map (cell od) rest)"
    by (simp_all add: cells_def i)
  have o: "owned od (leftmost_clear t) = concat (map (onion_dict_node_data_free od) rest)"
    "owned od t = onion_dict_node_data_free od (leftmost_data t) @
       concat (map (onion_dict_node_data_free od) rest)"
    by (simp_all add: owned_def i)
  have s: "set (concat (map (onion_dict_node_data_free od) rest)) \<subseteq> set (concat (map (cell od) rest))"
    using data_free_cell by fastforce
  have k: "addr (key (leftmost_data t)) \<notin> set (concat (map (cell od) rest))"
    using assms(2) key_in_cell [of "leftmost_data t" od] unfolding c(1) by auto
  show "distinct (cells od (leftmost_clear t))"
    using assms(2) k unfolding c by simp
  show "set (cells od (leftmost_clear t)) \<subseteq> set (cells od t)"
    unfolding c using key_in_cell [of "leftmost_data t" od] by auto
  show "addr (key (leftmost_data t)) \<in> set (cells od t)"
    unfolding c using key_in_cell [of "leftmost_data t" od] by simp
  show "addr (key (leftmost_data t)) \<notin> set (owned od (leftmost_clear t))"
    unfolding o using k s by blast
  show "set (owned od (leftmost_clear t)) \<subseteq> set (owned od t)"
    unfolding o by auto
qed

lemma cells_rightmost:
  assumes "t \<noteq> Null" and "distinct (cells od t)"
  shows "distinct (cells od (rightmost_clear t))"
    and "set (cells od (rightmost_clear t)) \<subseteq> set (cells od t)"
    and "addr (key (rightmost_data t)) \<in> set (cells od t)"
    and "addr (key (rightmost_data t)) \<notin> set (owned od (rightmost_clear t))"
    and "set (owned od (rightmost_clear t)) \<subseteq> set (owned od t)"
proof -
  from inorder_rightmost [OF assms(1)] obtain init where
    i: "inorder t = init @ [rightmost_data t]"
       "inorder (rightmost_clear t) = init @ [(rightmost_data t)\<lparr>flags := 0\<rparr>]"
    by blast
  have c: "cells od t = concat (map (cell od) init) @ cell od (rightmost_data t)"
    "cells od (rightmost_clear t) = concat (map (cell od) init) @ [addr (key (rightmost_data t))]"
    by (simp_all add: cells_def i)
  have o: "owned od (rightmost_clear t) = concat (map (onion_dict_node_data_free od) init)"
    "owned od t = concat (map (onion_dict_node_data_free od) init) @
       onion_dict_node_data_free od (rightmost_data t)"
    by (simp_all add: owned_def i)
  have s: "set (concat (map (onion_dict_node_data_free od) init)) \<subseteq> set (concat (map (cell od) init))"
    using data_free_cell by fastforce
  have k: "addr (key (rightmost_data t)) \<notin> set (concat (map (cell od) init))"
    using assms(2) key_in_cell [of "rightmost_data t" od] unfolding c(1) by auto
  show "distinct (cells od (rightmost_clear t))"
    using assms(2) k unfolding c by simp
  show "set (cells od (rightmost_clear t)) \<subseteq> set (cells od t)"
    unfolding c using key_in_cell [of "rightmost_data t" od] by auto
  show "addr (key (rightmost_data t)) \<in> set (cells od t)"
    unfolding c using key_in_cell [of "rightmost_data t" od] by simp
  show "addr (key (rightmost_data t)) \<notin> set (owned od (rightmost_clear t))"
    unfolding o using k s by blast
  show "set (owned od (rightmost_clear t)) \<subseteq> set (owned od t)"
    unfolding o by auto
qed

lemma node_remove_chk_safe:
  "distinct (cells od t) \<Longrightarrow> set (cells od t) \<inter> set fs = {} \<Longrightarrow> addr k \<notin> set fs \<Longrightarrow>
   \<exists>t' ps. onion_dict_node_remove_chk od fs t k = Done (t', fs @ ps) \<and>
           set ps \<subseteq> set (owned od t) \<and>
           (\<forall>e \<in> set (inorder t'). addr (key e) \<in> set (cells od t) \<and> addr (key e) \<notin> set ps)"
proof (induction od fs t k rule: onion_dict_node_remove_chk.induct)
  case (1 od fs k)
  show ?case by simp
next
  case (2 od fs d lv l r k)
  let ?cmp = "strcmp (bytes k) (bytes (key d))"
  from "2.prems"(1) have dl: "distinct (cells od l)" and dr: "distinct (cells od r)"
    and dd: "distinct (cell od d)"
    and x: "set (cells od l) \<inter> set (cell od d) = {}" "set (cells od l) \<inter> set (cells od r) = {}"
      "set (cell od d) \<inter> set (cells od r) = {}"
    by auto
  from "2.prems"(2) have il: "set (cells od l) \<inter> set fs = {}"
    and ir: "set (cells od r) \<inter> set fs = {}" and id: "set (cell od d) \<inter> set fs = {}"
    by auto
  note kd = key_in_cell [of d od]
  from id kd have "addr (key d) \<notin> set fs" by auto
  with "2.prems"(3) have c: "strcmp_chk fs k (key d) = Done ?cmp"
    by (rule strcmp_chk_live)
  consider (lt) "?cmp < 0" | (gt) "0 < ?cmp" | (eq) "?cmp = 0" by linarith
  then show ?case
  proof cases
    case lt
    from "2.IH"(1) [OF c lt dl il "2.prems"(3)] obtain l' ps where
      ih: "onion_dict_node_remove_chk od fs l k = Done (l', fs @ ps)"
        "set ps \<subseteq> set (owned od l)"
        "\<forall>e \<in> set (inorder l'). addr (key e) \<in> set (cells od l) \<and> addr (key e) \<notin> set ps"
      by blast
    have r: "onion_dict_node_remove_chk od fs (Node d lv l r) k =
               Done (rebalance (Node d lv l' r), fs @ ps)"
      using c lt ih(1) by simp
    have p: "set ps \<subseteq> set (cells od l)" using ih(2) owned_cells [of od l] by blast
    have "addr (key e) \<in> set (cells od (Node d lv l r)) \<and> addr (key e) \<notin> set ps"
      if "e \<in> set (inorder (rebalance (Node d lv l' r)))" for e
    proof -
      from that consider "e \<in> set (inorder l')" | "e = d" | "e \<in> set (inorder r)" by auto
      then show ?thesis
      proof cases
        case 1
        with ih(3) show ?thesis by simp
      next
        case 2
        with kd p x(1) show ?thesis by auto
      next
        case 3
        from key_in_cells [OF 3, of od] p x(2) show ?thesis by auto
      qed
    qed
    moreover have "set ps \<subseteq> set (owned od (Node d lv l r))"
      using ih(2) by auto
    ultimately show ?thesis using r by blast
  next
    case gt
    then have ng: "\<not> ?cmp < 0" by simp
    from "2.IH"(2) [OF c ng gt dr ir "2.prems"(3)] obtain r' ps where
      ih: "onion_dict_node_remove_chk od fs r k = Done (r', fs @ ps)"
        "set ps \<subseteq> set (owned od r)"
        "\<forall>e \<in> set (inorder r'). addr (key e) \<in> set (cells od r) \<and> addr (key e) \<notin> set ps"
      by blast
    have r: "onion_dict_node_remove_chk od fs (Node d lv l r) k =
               Done (rebalance (Node d lv l r'), fs @ ps)"
      using c gt ih(1) by simp
    have p: "set ps \<subseteq> set (cells od r)" using ih(2) owned_cells [of od r] by blast
    have "addr (key e) \<in> set (cells od (Node d lv l r)) \<and> addr (key e) \<notin> set ps"
      if "e \<in> set (inorder (rebalance (Node d lv l r')))" for e
    proof -
      from that consider "e \<in> set (inorder l)" | "e = d" | "e \<in> set (inorder r')" by auto
      then show ?thesis
      proof cases
        case 1
        from key_in_cells [OF 1, of od] p x(2) show ?thesis by auto
      next
        case 2
        with kd p x(3) show ?thesis by auto
      next
        case 3
        with ih(3) show ?thesis by simp
      qed
    qed
    moreover have "set ps \<subseteq> set (owned od (Node d lv l r))"
      using ih(2) by auto
    ultimately show ?thesis using r by blast
  next
    case eq
    then have n: "\<not> ?cmp < 0" "\<not> 0 < ?cmp" by simp_all
    let ?fd = "onion_dict_node_data_free od d"
    note fc = data_free_cell [of od d]
    have f: "free_chk fs ?fd = Done (fs @ ?fd)"
      using dd id fc by (auto simp: free_chk_def distinct_data_free)
    show ?thesis
    proof (cases "l = Null \<and> r = Null")
      case True
      then have "onion_dict_node_remove_chk od fs (Node d lv l r) k = Done (Null, fs @ ?fd)"
        using c eq f by simp
      then show ?thesis by auto
    next
      case leafless: False
      show ?thesis
      proof (cases "l = Null")
        case True
        with leafless have rn: "r \<noteq> Null" by simp
        let ?td = "leftmost_data r"
        note cl = cells_leftmost [OF rn dr]
        have i0: "set (cells od (leftmost_clear r)) \<inter> set (fs @ ?fd) = {}"
          using cl(2) ir x(3) fc by auto
        have k0: "addr (key ?td) \<notin> set (fs @ ?fd)"
          using cl(3) ir x(3) fc by auto
        from "2.IH"(3) [OF c n f leafless True refl cl(1) i0 k0] obtain r' ps where
          ih: "onion_dict_node_remove_chk od (fs @ ?fd) (leftmost_clear r) (key ?td) =
                 Done (r', (fs @ ?fd) @ ps)"
            "set ps \<subseteq> set (owned od (leftmost_clear r))"
            "\<forall>e \<in> set (inorder r'). addr (key e) \<in> set (cells od (leftmost_clear r)) \<and>
                addr (key e) \<notin> set ps"
          by blast
        have r: "onion_dict_node_remove_chk od fs (Node d lv l r) k =
                   Done (rebalance (Node ?td lv l r'), fs @ (?fd @ ps))"
          using c eq f True rn ih(1) by (simp add: Let_def)
        have "addr (key e) \<in> set (cells od (Node d lv l r)) \<and> addr (key e) \<notin> set (?fd @ ps)"
          if "e \<in> set (inorder (rebalance (Node ?td lv l r')))" for e
        proof -
          from that True consider "e = ?td" | "e \<in> set (inorder r')" by auto
          then show ?thesis
          proof cases
            case 1
            with cl(3,4) ih(2) x(3) fc show ?thesis by auto
          next
            case 2
            with ih(3) cl(2) x(3) fc show ?thesis by auto
          qed
        qed
        moreover have "set (?fd @ ps) \<subseteq> set (owned od (Node d lv l r))"
          using ih(2) cl(5) by auto
        ultimately show ?thesis using r by blast
      next
        case False
        let ?td = "rightmost_data l"
        note cl = cells_rightmost [OF False dl]
        have i0: "set (cells od (rightmost_clear l)) \<inter> set (fs @ ?fd) = {}"
          using cl(2) il x(1) fc by auto
        have k0: "addr (key ?td) \<notin> set (fs @ ?fd)"
          using cl(3) il x(1) fc by auto
        from "2.IH"(4) [OF c n f leafless False refl cl(1) i0 k0] obtain l' ps where
          ih: "onion_dict_node_remove_chk od (fs @ ?fd) (rightmost_clear l) (key ?td) =
                 Done (l', (fs @ ?fd) @ ps)"
            "set ps \<subseteq> set (owned od (rightmost_clear l))"
            "\<forall>e \<in> set (inorder l'). addr (key e) \<in> set (cells od (rightmost_clear l)) \<and>
                addr (key e) \<notin> set ps"
          by blast
        have r: "onion_dict_node_remove_chk od fs (Node d lv l r) k =
                   Done (rebalance (Node ?td lv l' r), fs @ (?fd @ ps))"
          using c eq f False ih(1) by (simp add: Let_def)
        have p: "set ps \<subseteq> set (cells od l)"
          using ih(2) cl(5) owned_cells [of od l] by blast
        have "addr (key e) \<in> set (cells od (Node d lv l r)) \<and> addr (key e) \<notin> set (?fd @ ps)"
          if "e \<in> set (inorder (rebalance (Node ?td lv l' r)))" for e
        proof -
          from that consider "e \<in> set (inorder l')" | "e = ?td" | "e \<in> set (inorder r)" by auto
          then show ?thesis
          proof cases
            case 1
            with ih(3) cl(2) x(1) fc show ?thesis by auto
          next
            case 2
            with cl(3,4) ih(2) x(1) fc show ?thesis by auto
          next
            case 3
            from key_in_cells [OF 3, of od] p x(2,3) fc show ?thesis by auto
          qed
        qed
        moreover have "set (?fd @ ps) \<subseteq> set (owned od (Node d lv l r))"
          using ih(2) cl(5) by auto
        ultimately show ?thesis using r by blast
      qed
    qed
  qed
qed

section \<open>Checked operations on whole dictionaries\<close>

lemma remove_chk_absent:
  assumes "aa_inv (root dict)" "key_absent k dict" "keys_live fs dict" "addr k \<notin> set fs"
  shows "onion_dict_remove_chk od (dict, fs) k = Done (dict, 1, fs)"
  using node_remove_chk_absent [of "root dict" k fs od] assms
  by (simp add: onion_dict_remove_chk_def key_absent_def keys_live_def)

lemma add_chk_live:
  assumes "keys_live fs dict" "addr k \<notin> set fs" "addr v \<notin> set fs" "ka \<notin> set fs" "va \<notin> set fs"
  shows "onion_dict_add_chk od (dict, fs) k v fl ka va =
           Done (onion_dict_add od dict k v fl ka va, fs)"
    and "keys_live fs (onion_dict_add od dict k v fl ka va)"
proof -
  let ?n = "onion_dict_node_new od k v fl ka va"
  have kn: "addr (key (data ?n)) \<notin> set fs"
    using assms(2,4) by (simp add: onion_dict_node_new_def onion_dict_set_node_data_def strdup_def)
  from assms(1) have "onion_dict_node_add_chk fs (root dict) ?n =
      Done (onion_dict_node_add (root dict) ?n)"
    unfolding keys_live_def using kn by (rule node_add_chk_live)
  then show "onion_dict_add_chk od (dict, fs) k v fl ka va =
           Done (onion_dict_add od dict k v fl ka va, fs)"
    using assms(2-5) by (simp add: onion_dict_add_chk_def onion_dict_add_def)
  from inorder_add [of "root dict" ?n] obtain xs ys where
    "inorder (root dict) = xs @ ys"
    "inorder (onion_dict_node_add (root dict) ?n) = xs @ inorder ?n @ ys"
    by blast
  then show "keys_live fs (onion_dict_add od dict k v fl ka va)"
    using assms(1) kn by (simp add: keys_live_def onion_dict_add_def onion_dict_node_new_def)
qed

lemma remove_chk_safe:
  assumes "distinct (cells od (root dict))" "set (cells od (root dict)) \<inter> set fs = {}"
    "addr k \<notin> set fs"
  shows "\<exists>dict' ps. onion_dict_remove_chk od (dict, fs) k = Done (dict', 1, fs @ ps) \<and>
           set ps \<subseteq> set (owned od (root dict)) \<and> keys_live (fs @ ps) dict'"
proof -
  from node_remove_chk_safe [OF assms] obtain t' ps where
    r: "onion_dict_node_remove_chk od fs (root dict) k = Done (t', fs @ ps)"
      "set ps \<subseteq> set (owned od (root dict))"
      "\<forall>e \<in> set (inorder t'). addr (key e) \<in> set (cells od (root dict)) \<and> addr (key e) \<notin> set ps"
    by blast
  from r(3) assms(2) have "keys_live (fs @ ps) (dict\<lparr>root := t'\<rparr>)"
    by (auto simp: keys_live_def list_all_iff)
  with r(1,2) show ?thesis by (auto simp: onion_dict_remove_chk_def)
qed

lemma get_after_add_chk:
  assumes "bst (root dict)" "key_absent k dict" "ascii (bytes k)" "keys_7bit dict"
    "keys_live fs dict" "addr k \<notin> set fs" "addr v \<notin> set fs" "ka \<notin> set fs" "va \<notin> set fs"
  shows "onion_dict_add_chk od (dict, fs) k v fl ka va =
           Done (onion_dict_add od dict k v fl ka va, fs) \<and>
         onion_dict_get_chk fs (onion_dict_add od dict k v fl ka va) k =
           Done (Some (if fl AND OD_DUP_VALUE od = OD_DUP_VALUE od then strdup va v else v))"
  using add_chk_live [OF assms(5-9), of od fl] get_after_add [OF assms(1-4), of od v fl ka va]
    assms(6) by (simp add: get_chk_live)



section \<open>Dictionaries that own no string\<close>

text \<open>Nothing is freed, and nothing can go wrong, where no entry owns its strings.\<close>

lemma node_remove_chk_borrowed:
  "owned od t = [] \<Longrightarrow>
   onion_dict_node_remove_chk od [] t k = Done (fst (onion_dict_node_remove od t k), [])"
proof (induction od "[] :: cptr list" t k rule: onion_dict_node_remove_chk.induct)
  case (1 od k)
  show ?case by simp
next
  case (2 od d lv l r k)
  let ?cmp = "strcmp (bytes k) (bytes (key d))"
  from "2.prems" have o: "owned od l = []" "owned od r = []" "onion_dict_node_data_free od d = []"
    by simp_all
  have c: "strcmp_chk [] k (key d) = Done ?cmp" by (simp add: strcmp_chk_def)
  have f: "free_chk [] (onion_dict_node_data_free od d) = Done []"
    by (simp add: o free_chk_def)
  consider (lt) "?cmp < 0" | (gt) "0 < ?cmp" | (eq) "?cmp = 0" by linarith
  then show ?case
  proof cases
    case lt
    from "2.hyps"(1) [OF c lt o(1)] c lt show ?thesis by (simp add: remove_lt)
  next
    case gt
    then have ng: "\<not> ?cmp < 0" by simp
    from "2.hyps"(2) [OF c ng gt o(2)] c gt show ?thesis by (simp add: remove_gt)
  next
    case eq
    then have n: "\<not> ?cmp < 0" "\<not> 0 < ?cmp" by simp_all
    show ?thesis
    proof (cases "l = Null \<and> r = Null")
      case True
      with c eq f show ?thesis by (simp add: remove_leaf)
    next
      case leafless: False
      show ?thesis
      proof (cases "l = Null")
        case True
        with leafless have rn: "r \<noteq> Null" by simp
        from owned_leftmost [OF rn, of od] o(2) have "owned od (leftmost_clear r) = []" by simp
        from "2.hyps"(3) [OF c n f leafless True refl this] c eq f True rn show ?thesis
          by (simp add: remove_succ Let_def)
      next
        case False
        from owned_rightmost [OF False, of od] o(1) have "owned od (rightmost_clear l) = []" by simp
        from "2.hyps"(4) [OF c n f leafless False refl this] c eq f False show ?thesis
          by (simp add: remove_pred Let_def)
      qed
    qed
  qed
qed

lemma apply_op_chk_borrowed:
  assumes "borrows od x" "owned od (root dict) = []"
  shows "apply_op_chk od (dict, []) x = Done (apply_op od dict x, [])"
    and "owned od (root (apply_op od dict x)) = []"
proof -
  show "apply_op_chk od (dict, []) x = Done (apply_op od dict x, [])"
  proof (cases x)
    case (Add k v fl ka va)
    have "keys_live [] dict" by (simp add: keys_live_def list_all_iff)
    from add_chk_live(1) [OF this, of k v ka va od fl] Add show ?thesis by simp
  next
    case (Remove k)
    with node_remove_chk_borrowed [OF assms(2), of k] show ?thesis
      by (simp add: onion_dict_remove_chk_def onion_dict_remove_def split_beta)
  qed
  show "owned od (root (apply_op od dict x)) = []"
  proof (cases x)
    case (Add k v fl ka va)
    let ?n = "onion_dict_node_new od k v fl ka va"
    from inorder_add [of "root dict" ?n] obtain xs ys where
      "inorder (root dict) = xs @ ys"
      "inorder (onion_dict_node_add (root dict) ?n) = xs @ inorder ?n @ ys"
      by blast
    with assms Add show ?thesis
      by (simp add: owned_def onion_dict_add_def onion_dict_node_new_def)
  next
    case (Remove k)
    from remove_frees [of od "root dict" k] assms(2) Remove show ?thesis
      by (simp add: onion_dict_remove_def split_beta)
  qed
qed

lemma run_from_chk_borrowed:
  "list_all (borrows od) ops \<Longrightarrow> owned od (root dict) = [] \<Longrightarrow>
   run_from_chk od (dict, []) ops = Done (foldl (apply_op od) dict ops, [])"
proof (induction ops arbitrary: dict)
  case Nil
  show ?case by simp
next
  case (Cons x xs)
  from Cons.prems have b: "borrows od x" "list_all (borrows od) xs" by simp_all
  note a = apply_op_chk_borrowed [OF b(1) Cons.prems(2)]
  from Cons.IH [OF b(2) a(2)] a(1) show ?case by simp
qed

lemma run_chk_borrowed:
  "list_all (borrows od) ops \<Longrightarrow> run_chk od ops = Done (run_ops od ops, [])"
  unfolding run_chk_def run_ops_def
  by (rule run_from_chk_borrowed) (simp_all add: onion_dict_new_def)

section \<open>The level invariant and the listed conditions\<close>

text \<open>\<open>aa_inv\<close> is the four listed conditions and one more: a node lacking a child has level 1.\<close>

lemma aa_inv_iff: "aa_inv t \<longleftrightarrow> aa_levels t \<and> no_gap t"
proof (induction t)
  case Null
  show ?case by simp
next
  case (Node d lv l r)
  show ?case
  proof
    assume a: "aa_inv (Node d lv l r)"
    then have i: "aa_inv l" "aa_inv r" "lvl l = lv - 1"
      "lvl r = lv - 1 \<or> lvl r = lv \<and> rlvl r = lv - 1"
      by (simp_all add: aa_inv_Node)
    have "l = Null \<or> r = Null \<Longrightarrow> lv = 1"
      using i(3,4) by auto
    with aa_inv_levels [OF a] i(1,2) Node.IH show "aa_levels (Node d lv l r) \<and> no_gap (Node d lv l r)"
      by simp
  next
    assume b: "aa_levels (Node d lv l r) \<and> no_gap (Node d lv l r)"
    then have i: "aa_inv l" "aa_inv r" using Node.IH by simp_all
    from b have g: "l = Null \<or> r = Null \<Longrightarrow> lv = 1" by simp
    have 1: "lvl l = lv - 1"
      using b g by (cases l) auto
    have 2: "lvl r = lv - 1 \<or> lvl r = lv \<and> rlvl r = lv - 1"
    proof (cases r)
      case Null
      with g show ?thesis by simp
    next
      case r: (Node rd rlv rl rr)
      show ?thesis
      proof (cases rr)
        case Null
        with b r show ?thesis by auto
      next
        case (Node rrd rrlv rrl rrr)
        with b r show ?thesis by auto
      qed
    qed
    from i 1 2 show "aa_inv (Node d lv l r)" by (simp add: aa_inv_Node)
  qed
qed

lemma run_from_chk_append:
  "run_from_chk od st (xs @ ys) =
     (case run_from_chk od st xs of Stuck \<Rightarrow> Stuck | Done st' \<Rightarrow> run_from_chk od st' ys)"
  by (induction xs arbitrary: st) (simp_all split: checked.splits)

lemma run_from_chk_adds:
  "list_all is_add ops \<Longrightarrow>
   run_from_chk od (dict, []) ops = Done (foldl (apply_op od) dict ops, [])"
proof (induction ops arbitrary: dict)
  case Nil
  show ?case by simp
next
  case (Cons x xs)
  from Cons.prems obtain k v fl ka va where x: "x = Add k v fl ka va"
    by (cases x) simp_all
  have "keys_live [] dict" by (simp add: keys_live_def list_all_iff)
  from add_chk_live(1) [OF this, of k v ka va od fl] Cons.IH Cons.prems x show ?case by simp
qed

lemma run_chk_adds: "list_all is_add ops \<Longrightarrow> run_chk od ops = Done (run_ops od ops, [])"
  unfolding run_chk_def run_ops_def by (rule run_from_chk_adds)

section \<open>The examples, evaluated\<close>

lemmas ex_simps = run_ops_def onion_dict_new_def onion_dict_add_def onion_dict_node_new_def
  onion_dict_set_node_data_def od_example_def cstr_def strdup_def NUL_def byte_def keycmp_def
  entry_def

lemma dict_abc_root:
  "root dict_abc =
   Node \<lparr>key = cstr 10 ''b'', val = cstr 11 ''2'', flags = 54\<rparr> 2
     (Node \<lparr>key = cstr 12 ''a'', val = cstr 13 ''1'', flags = 54\<rparr> 1 Null Null)
     (Node \<lparr>key = cstr 14 ''c'', val = cstr 15 ''3'', flags = 54\<rparr> 1 Null Null)"
  by (simp add: dict_abc_def ops_abc_def ex_simps)

lemma dict_abc_run: "run_ops od_example ops_abc = dict_abc"
  by (simp add: dict_abc_def)

lemma dict_abc_bst: "bst (root dict_abc)"
  by (simp add: dict_abc_root ex_simps)

lemma dict_abc_aa_inv: "aa_inv (root dict_abc)"
  by (simp add: dict_abc_root aa_inv_Node)

lemma free_54 [simp]:
  "onion_dict_node_data_free od_example \<lparr>key = k, val = v, flags = 54\<rparr> = [addr k, addr v]"
  by (simp add: onion_dict_node_data_free_def od_example_def)

lemma remove_b_from_dict_abc:
  "onion_dict_remove od_example dict_abc (cstr 7 ''b'') =
     (\<lparr>root = Node \<lparr>key = cstr 12 ''a'', val = cstr 13 ''1'', flags = 54\<rparr> 1 Null
         (Node \<lparr>key = cstr 14 ''c'', val = cstr 15 ''3'', flags = 54\<rparr> 1 Null Null)\<rparr>,
      1, [10, 11])"
proof -
  have e: "dict_abc = \<lparr>root = root dict_abc\<rparr>" by simp
  show ?thesis
    unfolding onion_dict_remove_def
    by (subst e, simp only: dict_abc_root)
       (simp add: onion_dict_node_remove.simps(2) rebalance_def cstr_def NUL_def byte_def
          onion_dict_node_data_free_def od_example_def)
qed

lemma dict_ac_aa_inv: "aa_inv (root dict_ac)"
  by (simp add: dict_ac_def aa_inv_Node)

lemma dict_ac_bst: "bst (root dict_ac)"
  by (simp add: dict_ac_def ex_simps)

lemma keys_live_Nil: "keys_live [] dict"
  by (simp add: keys_live_def list_all_iff)

lemma run_chk_abc: "run_chk od_example ops_abc = Done (dict_abc, [])"
  using run_chk_adds [of ops_abc od_example] by (simp add: ops_abc_def dict_abc_def)

lemma cells_dict_abc: "cells od_example (root dict_abc) = [12, 13, 10, 11, 14, 15]"
  by (simp add: dict_abc_root cell_def od_example_def cstr_def)


lemma remove_chk_b_from_dict_abc:
  "onion_dict_remove_chk od_example (dict_abc, []) (cstr 7 ''b'') = Done (dict_ac, 1, [10, 11])"
proof -
  have "\<exists>dict' ps. onion_dict_remove_chk od_example (dict_abc, []) (cstr 7 ''b'') =
      Done (dict', 1, [] @ ps) \<and> set ps \<subseteq> set (owned od_example (root dict_abc)) \<and>
      keys_live ([] @ ps) dict'"
    by (rule remove_chk_safe) (simp_all add: cells_dict_abc)
  then obtain dict' ps where
    r: "onion_dict_remove_chk od_example (dict_abc, []) (cstr 7 ''b'') = Done (dict', 1, ps)"
    by auto
  from remove_chk_agree [OF r] have "onion_dict_remove od_example dict_abc (cstr 7 ''b'') = (dict', 1, ps)"
    by simp
  with r show ?thesis by (simp add: remove_b_from_dict_abc dict_ac_def)
qed

lemma run_chk_abc_remove_b:
  "run_chk od_example (ops_abc @ [Remove (cstr 7 ''b'')]) = Done (dict_ac, [10, 11])"
  using run_chk_abc remove_chk_b_from_dict_abc
  by (simp add: run_chk_def run_from_chk_append)

lemma keys_live_dict_ac: "keys_live [10, 11] dict_ac"
  by (simp add: keys_live_def dict_ac_def cstr_def)

text \<open>
  The donor of a relocation is taken out of the subtree by its key. Where another entry
  has the same key the search can stop there, and the donor stays in the tree, its flags
  cleared, sharing its strings with the node its data was copied to. The next removal of
  that key frees the shared key and then compares with it.
\<close>

lemma donor_removed_by_key_example:
  "run_chk od_example (ops_abba @ [Remove (cstr 9 ''b'')]) =
     Done (\<lparr>root = Node \<lparr>key = cstr 16 ''a'', val = cstr 17 ''4'', flags = 54\<rparr> 2
              (Node \<lparr>key = cstr 16 ''a'', val = cstr 17 ''4'', flags = 0\<rparr> 1 Null Null)
              (Node \<lparr>key = cstr 14 ''b'', val = cstr 15 ''3'', flags = 54\<rparr> 1 Null Null)\<rparr>,
           [12, 13, 10, 11])"
  by (simp add: run_chk_def ops_abba_def onion_dict_add_chk_def onion_dict_remove_chk_def
      strcmp_chk_def free_chk_def rebalance_def onion_dict_node_data_free_def
      onion_dict_new_def onion_dict_node_new_def onion_dict_set_node_data_def od_example_def
      cstr_def strdup_def NUL_def byte_def)

lemma freed_key_read_example:
  "run_chk od_example (ops_abba @ [Remove (cstr 9 ''b''), Remove (cstr 9 ''a'')]) = Stuck"
proof -
  have e: "ops_abba @ [Remove (cstr 9 ''b''), Remove (cstr 9 ''a'')] =
           (ops_abba @ [Remove (cstr 9 ''b'')]) @ [Remove (cstr 9 ''a'')]"
    by simp
  show ?thesis
    unfolding e run_chk_def
    by (subst run_from_chk_append,
        simp only: donor_removed_by_key_example [unfolded run_chk_def] checked.case)
       (simp add: onion_dict_remove_chk_def strcmp_chk_def free_chk_def cstr_def)
qed

text \<open>
  In the dictionary \<open>dict_alias\<close> the key \<open>b\<close> occurs once and no key is at a freed
  address. Removing \<open>b\<close> copies the data of its predecessor, the last \<open>a\<close>, into its node
  and then removes that key from the left subtree: the search stops at the first entry
  with the key, whose strings the root holds as well, and frees them. The \<open>get\<close> that
  follows compares with the freed key of the root.
\<close>

lemmas chk_simps = run_chk_def onion_dict_add_chk_def onion_dict_remove_chk_def
      strcmp_chk_def free_chk_def rebalance_def onion_dict_node_data_free_def
      onion_dict_new_def onion_dict_node_new_def onion_dict_set_node_data_def od_example_def
      cstr_def strdup_def NUL_def byte_def

lemma run_chk_alias:
  "run_chk od_example ops_alias =
     Done (dict_alias, [104, 105, 100, 101, 108, 109, 106, 107])"
  by (simp add: ops_alias_def dict_alias_def chk_simps)

lemma aliased_entry_example:
  "bst (root dict_alias) \<and> key_once (cstr 1 ''b'') dict_alias \<and>
   keys_live [104, 105, 100, 101, 108, 109, 106, 107] dict_alias \<and>
   (\<exists>d. onion_dict_remove_chk od_example
           (dict_alias, [104, 105, 100, 101, 108, 109, 106, 107]) (cstr 1 ''b'') =
         Done (d, 1, [104, 105, 100, 101, 108, 109, 106, 107, 110, 111, 114, 115]) \<and>
        \<not> keys_live [104, 105, 100, 101, 108, 109, 106, 107, 110, 111, 114, 115] d \<and>
        onion_dict_get_chk [104, 105, 100, 101, 108, 109, 106, 107, 110, 111, 114, 115] d
          (cstr 1 ''b'') = Stuck)"
  by (simp add: dict_alias_def key_once_def keys_live_def onion_dict_get_chk_def keycmp_def chk_simps)

text \<open>
  A tree that satisfies the four conditions of \<open>aa_levels\<close> and not \<open>aa_inv\<close>: the root
  has level 2 and no left child. Removing a key it does not hold lowers the root.
\<close>

lemma listed_levels_alone_example:
  "aa_levels (Node (entry ''b'' ''2'') 2 Null (Node (entry ''c'' ''3'') 1 Null Null)) \<and>
   \<not> no_gap (Node (entry ''b'' ''2'') 2 Null (Node (entry ''c'' ''3'') 1 Null Null)) \<and>
   onion_dict_node_remove od (Node (entry ''b'' ''2'') 2 Null (Node (entry ''c'' ''3'') 1 Null Null))
     (cstr 0 ''a'') =
   (Node (entry ''b'' ''2'') 1 Null (Node (entry ''c'' ''3'') 1 Null Null), [])"
  by (simp add: onion_dict_node_remove.simps(2) rebalance_def entry_def cstr_def NUL_def byte_def)

section \<open>The claims\<close>

text \<open>
  C2. \<open>onion_dict_remove\<close> returns 1 for every dictionary and every key, whether or not
  a node with that key exists.
\<close>

theorem C2_remove_returns_1: "fst (snd (onion_dict_remove od dict k)) = 1"
  by (simp add: onion_dict_remove_def split: prod.splits)

text \<open>
  C10. \<open>skew\<close> and \<open>split\<close> each return a tree with the same entries in the same
  in-order sequence, and return the argument itself unless the rotation applies: for
  \<open>skew\<close> a left child at the level of the node, for \<open>split\<close> a right grandchild at
  the level of the node.
\<close>

theorem C10_skew_split_keep_entries:
  "inorder (skew t) = inorder t \<and> inorder (split t) = inorder t \<and>
   (\<not> skew_applies t \<longrightarrow> skew t = t) \<and> (\<not> split_applies t \<longrightarrow> split t = t)"
  by (simp add: inorder_skew inorder_split skew_id split_id)

theorem C10_skew_split_keep_entries_witness:
  "\<not> skew_applies (Node (entry ''b'' ''2'') 1 Null (Node (entry ''c'' ''3'') 1 Null Null)) \<and>
   \<not> split_applies (Node (entry ''b'' ''2'') 1 Null (Node (entry ''c'' ''3'') 1 Null Null)) \<and>
   skew (Node (entry ''b'' ''2'') 1 Null (Node (entry ''c'' ''3'') 1 Null Null)) =
     Node (entry ''b'' ''2'') 1 Null (Node (entry ''c'' ''3'') 1 Null Null) \<and>
   split (Node (entry ''b'' ''2'') 1 Null (Node (entry ''c'' ''3'') 1 Null Null)) =
     Node (entry ''b'' ''2'') 1 Null (Node (entry ''c'' ''3'') 1 Null Null) \<and>
   inorder (skew (Node (entry ''b'' ''2'') 1 Null (Node (entry ''c'' ''3'') 1 Null Null))) =
     [entry ''b'' ''2'', entry ''c'' ''3'']"
  using C10_skew_split_keep_entries
    [of "Node (entry ''b'' ''2'') 1 Null (Node (entry ''c'' ''3'') 1 Null Null)"]
  by (simp add: skew_applies_def split_applies_def)

text \<open>
  C4. \<open>onion_dict_add\<close> puts exactly one new entry into the tree, the one built from its
  arguments, and leaves every existing entry as it was, also when the key is already
  there; the count grows by one; after any sequence of additions alone, starting from
  the empty dictionary, the count is the number of additions.
\<close>

theorem C4_add_creates_one_node:
  "(\<exists>xs ys. inorder (root dict) = xs @ ys \<and>
      inorder (root (onion_dict_add od dict k v fl ka va)) =
        xs @ [onion_dict_set_node_data od k v fl ka va] @ ys) \<and>
   onion_dict_count (Some (onion_dict_add od dict k v fl ka va)) =
     onion_dict_count (Some dict) + 1 \<and>
   (list_all is_add ops \<longrightarrow> onion_dict_count (Some (run_ops od ops)) = int (length ops))"
proof (intro conjI impI)
  show "\<exists>xs ys. inorder (root dict) = xs @ ys \<and>
      inorder (root (onion_dict_add od dict k v fl ka va)) =
        xs @ [onion_dict_set_node_data od k v fl ka va] @ ys"
    using inorder_add [of "root dict" "onion_dict_node_new od k v fl ka va"]
    by (simp add: onion_dict_add_def inorder_node_new)
  show "onion_dict_count (Some (onion_dict_add od dict k v fl ka va)) =
     onion_dict_count (Some dict) + 1"
    by (simp add: count_length onion_dict_add_def length_inorder_add inorder_node_new)
  assume "list_all is_add ops"
  then show "onion_dict_count (Some (run_ops od ops)) = int (length ops)"
    using length_foldl_adds [of ops od onion_dict_new]
    by (simp add: count_length run_ops_def onion_dict_new_def)
qed

theorem C4_add_creates_one_node_witness:
  "list_all is_add ops_abc \<and> onion_dict_count (Some (run_ops od_example ops_abc)) = 3"
  using C4_add_creates_one_node
    [of onion_dict_new od_example "cstr 1 ''b''" "cstr 2 ''2''" 54 10 11 ops_abc]
  by (simp add: ops_abc_def)

text \<open>
  C1, as amended. After every sequence of additions and removals starting from the
  empty dictionary in which no string at a freed address is read, copied or freed
  (\<open>run_chk\<close> is \<open>Done\<close>), the tree satisfies the level invariants: \<open>aa_inv\<close>, and with it
  the four conditions of \<open>aa_levels\<close>; and where no key of the tree is at a freed
  address, the tree is in search-tree order with equal keys allowed on both sides (keys
  on the left less or equal, keys on the right greater or equal). Sequences of additions
  alone, and sequences that leave the dictionary owning no string, are always of this
  kind (\<open>run_chk_adds\<close>, \<open>run_chk_borrowed\<close>); \<open>freed_key_read_example\<close> is one that is
  not.
\<close>

theorem C1_invariants_after_every_operation:
  "run_chk od ops = Done (dict, fs) \<longrightarrow>
     aa_inv (root dict) \<and> aa_levels (root dict) \<and> (keys_live fs dict \<longrightarrow> bst (root dict))"
  using run_chk_inv [of od ops dict fs] by (simp add: dict_inv_def aa_inv_levels)

theorem C1_invariants_after_every_operation_witness:
  "run_chk od_example (ops_abc @ [Remove (cstr 7 ''b'')]) = Done (dict_ac, [10, 11]) \<and>
   keys_live [10, 11] dict_ac \<and>
   aa_inv (root dict_ac) \<and> aa_levels (root dict_ac) \<and> bst (root dict_ac)"
  using C1_invariants_after_every_operation
    [where od = od_example and ops = "ops_abc @ [Remove (cstr 7 ''b'')]" and dict = dict_ac
       and fs = "[10, 11]"]
    run_chk_abc_remove_b keys_live_dict_ac
  by simp

text \<open>
  C1 as stated asks for keys on the left to be strictly less. Three additions of the
  same key end, after the \<open>split\<close> at the root, with one of the equal keys on the left.
\<close>

theorem C1_strict_order_counterexample:
  "\<not> bst_strict (root (run_ops od_example
       [Add (cstr 1 ''a'') (cstr 2 ''x'') 0 0 0,
        Add (cstr 3 ''a'') (cstr 4 ''y'') 0 0 0,
        Add (cstr 5 ''a'') (cstr 6 ''z'') 0 0 0]))"
  by (simp add: ex_simps)

lemma three_equal_keys_tree:
  "root (run_ops od_example
       [Add (cstr 1 ''a'') (cstr 2 ''x'') 0 0 0,
        Add (cstr 3 ''a'') (cstr 4 ''y'') 0 0 0,
        Add (cstr 5 ''a'') (cstr 6 ''z'') 0 0 0]) =
   Node \<lparr>key = cstr 3 ''a'', val = cstr 4 ''y'', flags = 0\<rparr> 2
     (Node \<lparr>key = cstr 1 ''a'', val = cstr 2 ''x'', flags = 0\<rparr> 1 Null Null)
     (Node \<lparr>key = cstr 5 ''a'', val = cstr 6 ''z'', flags = 0\<rparr> 1 Null Null)"
  by (simp add: ex_simps)

text \<open>
  C3. In a dictionary whose tree satisfies the AA invariant, removing a key that no entry
  has returns the same dictionary and 1 and frees nothing; where moreover no key of the
  tree and not the key searched for is at a freed address, the checked removal is done
  with this result, so the search reads no freed string. This holds in every dictionary
  reached by a checked sequence of additions and removals, and on the empty dictionary;
  and the rebalancing steps leave a tree that satisfies the invariant as it is. The
  invariant is \<open>aa_inv\<close>: the four listed conditions and, with a missing child counting
  as level 0, that a node lacking a child has level 1 (\<open>aa_inv_iff\<close>); every dictionary the
  operations build satisfies it, and \<open>listed_levels_alone_example\<close> shows a tree outside it.
\<close>

theorem C3_remove_absent_key_is_noop:
  "(aa_inv (root dict) \<and> key_absent k dict \<longrightarrow> onion_dict_remove od dict k = (dict, 1, [])) \<and>
   (aa_inv (root dict) \<and> key_absent k dict \<and> keys_live fs dict \<and> addr k \<notin> set fs \<longrightarrow>
      onion_dict_remove_chk od (dict, fs) k = Done (dict, 1, fs)) \<and>
   (run_chk od ops = Done (dict, fs) \<and> key_absent k dict \<and> keys_live fs dict \<and>
    addr k \<notin> set fs \<longrightarrow>
      onion_dict_remove_chk od (dict, fs) k = Done (dict, 1, fs)) \<and>
   onion_dict_remove od onion_dict_new k = (onion_dict_new, 1, []) \<and>
   onion_dict_remove_chk od (onion_dict_new, fs) k = Done (onion_dict_new, 1, fs) \<and>
   (aa_inv t \<and> t \<noteq> Null \<longrightarrow> rebalance t = t)"
proof -
  have "aa_inv (root dict)" if "run_chk od ops = Done (dict, fs)"
    using run_chk_inv [OF that] by (simp add: dict_inv_def)
  then show ?thesis
    by (simp add: remove_absent_dict remove_chk_absent rebalance_aa_inv)
       (simp add: onion_dict_remove_def onion_dict_remove_chk_def onion_dict_new_def)
qed

theorem C3_remove_absent_key_is_noop_witness:
  "aa_inv (root dict_ac) \<and> key_absent (cstr 7 ''z'') dict_ac \<and> keys_live [10, 11] dict_ac \<and>
   addr (cstr 7 ''z'') \<notin> set [10, 11] \<and> root dict_ac \<noteq> Null \<and>
   run_chk od_example (ops_abc @ [Remove (cstr 7 ''b'')]) = Done (dict_ac, [10, 11]) \<and>
   onion_dict_remove od_example dict_ac (cstr 7 ''z'') = (dict_ac, 1, []) \<and>
   onion_dict_remove_chk od_example (dict_ac, [10, 11]) (cstr 7 ''z'') =
     Done (dict_ac, 1, [10, 11]) \<and>
   rebalance (root dict_ac) = root dict_ac"
proof -
  have b: "key_absent (cstr 7 ''z'') dict_ac"
    by (simp add: key_absent_def dict_ac_def ex_simps)
  have c: "root dict_ac \<noteq> Null"
    by (simp add: dict_ac_def)
  have d: "addr (cstr 7 ''z'') \<notin> set [10, 11]"
    by (simp add: cstr_def)
  from C3_remove_absent_key_is_noop
    [where dict = dict_ac and k = "cstr 7 ''z''" and od = od_example and fs = "[10, 11]"
       and ops = "ops_abc @ [Remove (cstr 7 ''b'')]" and t = "root dict_ac"]
    dict_ac_aa_inv b c d keys_live_dict_ac run_chk_abc_remove_b
  show ?thesis by simp
qed

text \<open>
  C5, as amended. In a dictionary in search-tree order that has no entry with a key equal
  to \<open>k\<close>, and where \<open>k\<close> and all keys present are 7-bit strings, \<open>get k\<close> right after
  \<open>add k v\<close> returns the value \<open>add\<close> stored: \<open>v\<close>, or its copy when the flags ask for one.
  In a dictionary reached by a checked sequence of additions and removals, with no key of
  the tree, neither \<open>k\<close> nor \<open>v\<close>, and no address \<open>strdup\<close> returns among the freed ones,
  the checked \<open>add\<close> and the checked \<open>get\<close> are done with this result.
\<close>

theorem C5_get_after_add_fresh_key:
  "(bst (root dict) \<and> key_absent k dict \<and> ascii (bytes k) \<and> keys_7bit dict \<longrightarrow>
      onion_dict_get (onion_dict_add od dict k v fl ka va) k =
        Some (if fl AND OD_DUP_VALUE od = OD_DUP_VALUE od then strdup va v else v)) \<and>
   (run_chk od ops = Done (dict, fs) \<and> keys_live fs dict \<and>
    addr k \<notin> set fs \<and> addr v \<notin> set fs \<and> ka \<notin> set fs \<and> va \<notin> set fs \<and>
    key_absent k dict \<and> ascii (bytes k) \<and> keys_7bit dict \<longrightarrow>
      onion_dict_add_chk od (dict, fs) k v fl ka va =
        Done (onion_dict_add od dict k v fl ka va, fs) \<and>
      onion_dict_get_chk fs (onion_dict_add od dict k v fl ka va) k =
        Done (Some (if fl AND OD_DUP_VALUE od = OD_DUP_VALUE od then strdup va v else v)))"
proof -
  have "bst (root dict)" if "run_chk od ops = Done (dict, fs)"
    using run_chk_inv [OF that] by (simp add: dict_inv_def)
  then show ?thesis
    using get_after_add [where dict = dict and k = k and od = od and v = v and fl = fl
        and ka = ka and va = va]
      get_after_add_chk [where dict = dict and k = k and od = od and v = v and fl = fl
        and ka = ka and va = va and fs = fs]
    by blast
qed

theorem C5_get_after_add_fresh_key_witness:
  "bst (root dict_ac) \<and> key_absent (cstr 7 ''d'') dict_ac \<and> ascii (bytes (cstr 7 ''d'')) \<and>
   keys_7bit dict_ac \<and>
   run_chk od_example (ops_abc @ [Remove (cstr 7 ''b'')]) = Done (dict_ac, [10, 11]) \<and>
   keys_live [10, 11] dict_ac \<and>
   addr (cstr 7 ''d'') \<notin> set [10, 11] \<and> addr (cstr 8 ''4'') \<notin> set [10, 11] \<and>
   (0 :: cptr) \<notin> set [10, 11] \<and>
   onion_dict_get (onion_dict_add od_example dict_ac (cstr 7 ''d'') (cstr 8 ''4'') 0 0 0)
     (cstr 7 ''d'') = Some (cstr 8 ''4'') \<and>
   onion_dict_add_chk od_example (dict_ac, [10, 11]) (cstr 7 ''d'') (cstr 8 ''4'') 0 0 0 =
     Done (onion_dict_add od_example dict_ac (cstr 7 ''d'') (cstr 8 ''4'') 0 0 0, [10, 11]) \<and>
   onion_dict_get_chk [10, 11]
     (onion_dict_add od_example dict_ac (cstr 7 ''d'') (cstr 8 ''4'') 0 0 0) (cstr 7 ''d'') =
     Done (Some (cstr 8 ''4''))"
proof -
  have b: "key_absent (cstr 7 ''d'') dict_ac"
    by (simp add: key_absent_def dict_ac_def ex_simps)
  have c: "ascii (bytes (cstr 7 ''d''))"
    by (simp add: ascii_def ex_simps)
  have d: "keys_7bit dict_ac"
    by (simp add: keys_7bit_def dict_ac_def ascii_def ex_simps)
  have e: "(0 :: 32 word) AND OD_DUP_VALUE od_example \<noteq> OD_DUP_VALUE od_example"
    by (simp add: od_example_def)
  have f: "addr (cstr 7 ''d'') \<notin> set [10, 11]" "addr (cstr 8 ''4'') \<notin> set [10, 11]"
    "(0 :: cptr) \<notin> set [10, 11]"
    by (simp_all add: cstr_def)
  from C5_get_after_add_fresh_key
    [where dict = dict_ac and k = "cstr 7 ''d''" and od = od_example and v = "cstr 8 ''4''"
       and fl = 0 and ka = 0 and va = 0 and ops = "ops_abc @ [Remove (cstr 7 ''b'')]"
       and fs = "[10, 11]"]
    dict_ac_bst b c d e f keys_live_dict_ac run_chk_abc_remove_b
  show ?thesis by simp
qed

text \<open>
  C5 as stated fails when the key is already present: the new entry goes to the right
  of the old one, and the search stops at the old one.
\<close>

theorem C5_duplicate_key_counterexample:
  "onion_dict_get
     (onion_dict_add od_example
        (onion_dict_add od_example onion_dict_new (cstr 1 ''a'') (cstr 2 ''x'') 0 0 0)
        (cstr 3 ''a'') (cstr 4 ''y'') 0 0 0)
     (cstr 3 ''a'') = Some (cstr 2 ''x'') \<and>
   cstr 2 ''x'' \<noteq> cstr 4 ''y''"
  by (simp add: onion_dict_get_def to_schar_def ex_simps)

text \<open>
  Outside the amended claim: \<open>onion_dict_find_node\<close> keeps the result of \<open>strcmp\<close> in a
  \<open>signed char\<close>, \<open>onion_dict_node_add\<close> in an \<open>int\<close>. A difference of 128 or more
  changes sign when narrowed, and the search leaves the path the insertion took.
\<close>

lemma find_node_narrowing_example:
  "onion_dict_get
     (onion_dict_add od_example
        (onion_dict_add od_example onion_dict_new (cstr 1 ''0'') (cstr 2 ''x'') 0 0 0)
        (cstr 3 [CHR 0xC3, CHR 0xA9]) (cstr 4 ''y'') 0 0 0)
     (cstr 3 [CHR 0xC3, CHR 0xA9]) = None"
  by (simp add: onion_dict_get_def to_schar_def ex_simps)



text \<open>
  C6. \<open>onion_dict_preorder\<close> calls the visitor once for each entry, with its key and
  value, left subtree first, then the node, then the right subtree: the calls are the
  in-order list of entries, as many as \<open>onion_dict_count\<close> counts. In a tree in
  search-tree order, and so in every dictionary reached by a checked sequence of additions
  and removals with no key at a freed address, the keys visited never decrease in the
  order of \<open>strcmp\<close>. On a null or empty dictionary the visitor is not called. The
  traversal returns the visitor's state and nothing else: the dictionary is not touched.
\<close>

theorem C6_preorder_visits_in_key_order:
  "onion_dict_preorder (Some dict) f s =
     fold (\<lambda>d. f (key d) (val d)) (inorder (root dict)) s \<and>
   onion_dict_preorder (Some dict) (\<lambda>k v calls. calls @ [(k, v)]) [] =
     map (\<lambda>d. (key d, val d)) (inorder (root dict)) \<and>
   int (length (inorder (root dict))) = onion_dict_count (Some dict) \<and>
   (bst (root dict) \<longrightarrow> sorted_wrt kle (inorder (root dict))) \<and>
   (run_chk od ops = Done (dict, fs) \<and> keys_live fs dict \<longrightarrow>
      sorted_wrt kle (inorder (root dict))) \<and>
   onion_dict_preorder None f s = s \<and>
   onion_dict_preorder (Some onion_dict_new) f s = s"
proof -
  have "fold (\<lambda>d calls. calls @ [(key d, val d)]) xs acc =
        acc @ map (\<lambda>d. (key d, val d)) xs" for xs :: "onion_dict_node_data list" and acc
    by (rule fold_log)
  moreover have "sorted_wrt kle (inorder (root dict))" if "run_chk od ops = Done (dict, fs)"
    using run_chk_inv [OF that] by (simp add: dict_inv_def sorted_wrt_kle_bst)
  ultimately show ?thesis
    by (simp add: preorder_fold count_length sorted_wrt_kle_bst)
       (simp add: onion_dict_preorder_def onion_dict_new_def)
qed

theorem C6_preorder_visits_in_key_order_witness:
  "bst (root dict_abc) \<and>
   run_chk od_example ops_abc = Done (dict_abc, []) \<and> keys_live [] dict_abc \<and>
   onion_dict_preorder (Some dict_abc) (\<lambda>k v calls. calls @ [(bytes k, bytes v)]) [] =
     [(''a'', ''1''), (''b'', ''2''), (''c'', ''3'')] \<and>
   sorted_wrt kle (inorder (root dict_abc)) \<and>
   onion_dict_count (Some dict_abc) = 3"
  using C6_preorder_visits_in_key_order
    [where dict = dict_abc and f = "\<lambda>k v calls. calls @ [(bytes k, bytes v)]" and s = "[]"
       and od = od_example and ops = ops_abc and fs = "[]"]
    dict_abc_bst run_chk_abc keys_live_Nil [of dict_abc]
  by (simp add: dict_abc_root ex_simps)

text \<open>
  C8. On every node \<open>onion_dict_node_remove\<close> hands to its rebalancing steps (a removal
  site, see \<open>remove_calls_at_sites\<close>), \<open>decrease_level\<close> sets the level to one more than
  the lower of the children's levels, a missing child counting 0, and lowers the level
  of the right child to that value if it was higher; nothing else changes.
\<close>

theorem C8_decrease_level_at_removal:
  assumes "removal_site (Node d lv l r)"
  shows "decrease_level (Node d lv l r) =
           Node d (should_be l r) l (clamp_level (should_be l r) r) \<and>
         lvl (clamp_level (should_be l r) r) = min (lvl r) (should_be l r) \<and>
         inorder (clamp_level (should_be l r) r) = inorder r"
proof -
  have c: "lvl (clamp_level sb t) = min (lvl t) sb" if "0 < sb" for sb t
    using that by (cases t) auto
  from assms have n: "0 \<le> lvl l" "0 \<le> lvl r"
    by (simp_all add: removal_site_Node aa_inv_lvl_nonneg)
  then have p: "0 < should_be l r" by (simp add: should_be_def)
  from assms have b: "should_be l r \<le> lv" "lvl r \<le> lv"
    by (auto simp: removal_site_Node should_be_def)
  have e: "(if lvl l < lvl r then lvl l else lvl r) + 1 = should_be l r"
    by (simp add: should_be_def min_def)
  have "decrease_level (Node d lv l r) =
           Node d (should_be l r) l (clamp_level (should_be l r) r)"
  proof (cases "should_be l r < lv")
    case True
    then show ?thesis unfolding decrease_level.simps Let_def e by simp
  next
    case False
    with b have "should_be l r = lv" by simp
    with b(2) show ?thesis unfolding decrease_level.simps Let_def e
      by (simp add: clamp_noop)
  qed
  then show ?thesis using c [OF p] by simp
qed

theorem C8_decrease_level_at_removal_witness:
  "removal_site (Node (entry ''b'' ''2'') 2 Null
     (Node (entry ''d'' ''4'') 2 (Node (entry ''c'' ''3'') 1 Null Null)
        (Node (entry ''e'' ''5'') 1 Null Null))) \<and>
   decrease_level (Node (entry ''b'' ''2'') 2 Null
     (Node (entry ''d'' ''4'') 2 (Node (entry ''c'' ''3'') 1 Null Null)
        (Node (entry ''e'' ''5'') 1 Null Null))) =
   Node (entry ''b'' ''2'') 1 Null
     (Node (entry ''d'' ''4'') 1 (Node (entry ''c'' ''3'') 1 Null Null)
        (Node (entry ''e'' ''5'') 1 Null Null))"
proof -
  have a: "removal_site (Node (entry ''b'' ''2'') 2 Null
     (Node (entry ''d'' ''4'') 2 (Node (entry ''c'' ''3'') 1 Null Null)
        (Node (entry ''e'' ''5'') 1 Null Null)))"
    by (simp add: removal_site_Node aa_inv_Node)
  from C8_decrease_level_at_removal [OF a] a show ?thesis
    by (simp add: should_be_def)
qed

text \<open>
  C9. Every address owned by an entry of the tree before a removal is afterwards either
  among the addresses the removal freed or still owned by an entry, and counted with
  multiplicity on both sides: if no address is owned twice before the removal, then the
  removal followed by the destruction of the dictionary frees no address twice. The
  donor of a relocation has its flags cleared in the subtree the removal recurses on,
  so freeing its data there frees nothing.
\<close>

theorem C9_removal_frees_at_most_once:
  "mset (snd (snd (onion_dict_remove od dict k))) +
     mset (owned od (root (fst (onion_dict_remove od dict k)))) = mset (owned od (root dict)) \<and>
   (distinct (owned od (root dict)) \<longrightarrow>
      distinct (snd (snd (onion_dict_remove od dict k)) @
                onion_dict_free od (fst (onion_dict_remove od dict k)))) \<and>
   (t \<noteq> Null \<longrightarrow>
      onion_dict_node_data_free od (leftmost_data (leftmost_clear t)) = [] \<and>
      onion_dict_node_data_free od (rightmost_data (rightmost_clear t)) = [])"
proof -
  let ?fs = "snd (snd (onion_dict_remove od dict k))"
  let ?d' = "fst (onion_dict_remove od dict k)"
  have m: "mset ?fs + mset (owned od (root ?d')) = mset (owned od (root dict))"
    using remove_frees [of od "root dict" k] by (simp add: onion_dict_remove_def split_beta)
  have "distinct (?fs @ onion_dict_free od ?d')" if "distinct (owned od (root dict))"
  proof -
    have "mset (?fs @ onion_dict_free od ?d') = mset (owned od (root dict))"
      using m by (simp add: dict_free_owned)
    then show ?thesis using that by (metis mset_eq_imp_distinct_iff)
  qed
  with m show ?thesis by (simp add: leftmost_data_clear rightmost_data_clear)
qed

theorem C9_removal_frees_at_most_once_witness:
  "distinct (owned od_example (root dict_abc)) \<and>
   snd (snd (onion_dict_remove od_example dict_abc (cstr 7 ''b''))) = [10, 11] \<and>
   onion_dict_free od_example (fst (onion_dict_remove od_example dict_abc (cstr 7 ''b''))) =
     [14, 15, 12, 13] \<and>
   distinct (snd (snd (onion_dict_remove od_example dict_abc (cstr 7 ''b''))) @
     onion_dict_free od_example (fst (onion_dict_remove od_example dict_abc (cstr 7 ''b''))))"
proof -
  have a: "distinct (owned od_example (root dict_abc))"
    by (simp add: dict_abc_root cstr_def)
  have n: "root dict_abc \<noteq> Null"
    by (simp add: dict_abc_root)
  have b: "snd (snd (onion_dict_remove od_example dict_abc (cstr 7 ''b''))) = [10, 11]"
    by (simp add: remove_b_from_dict_abc)
  have c: "onion_dict_free od_example (fst (onion_dict_remove od_example dict_abc (cstr 7 ''b''))) =
     [14, 15, 12, 13]"
    by (simp add: remove_b_from_dict_abc onion_dict_free_def) (simp add: cstr_def)
  from C9_removal_frees_at_most_once [of od_example dict_abc "cstr 7 ''b''" "root dict_abc"] a n
  have "distinct (snd (snd (onion_dict_remove od_example dict_abc (cstr 7 ''b''))) @
     onion_dict_free od_example (fst (onion_dict_remove od_example dict_abc (cstr 7 ''b''))))"
    by simp
  with a b c show ?thesis by (simp only: simp_thms)
qed

end
